theory Spec2Isabelle
  imports
    Main
    "HOL-Library.AList"
    "HOL-Library.Sublist"
    "HOL-Library.Char_ord"
    "HOL-Library.List_Lexorder"
    "HOL-Library.Multiset"
begin

section \<open>Strings (package strings of the Go standard library, on ASCII bytes)\<close>

text \<open>
  A Go string is modelled as a \<open>string\<close>, a list of bytes. Case conversion is the ASCII
  part of \<open>strings.ToUpper\<close> and \<open>strings.ToLower\<close>: the 26 letters are mapped, every other
  byte is kept.
\<close>

definition lower_letters :: string where
  "lower_letters = ''abcdefghijklmnopqrstuvwxyz''"

definition upper_letters :: string where
  "upper_letters = ''ABCDEFGHIJKLMNOPQRSTUVWXYZ''"

definition to_upper_char :: "char \<Rightarrow> char" where
  "to_upper_char c = (case map_of (zip lower_letters upper_letters) c of Some u \<Rightarrow> u | None \<Rightarrow> c)"

definition to_lower_char :: "char \<Rightarrow> char" where
  "to_lower_char c = (case map_of (zip upper_letters lower_letters) c of Some u \<Rightarrow> u | None \<Rightarrow> c)"

definition ToUpper :: "string \<Rightarrow> string" where
  "ToUpper s = map to_upper_char s"

definition ToLower :: "string \<Rightarrow> string" where
  "ToLower s = map to_lower_char s"

text \<open>\<open>strings.Join(elems, sep)\<close>.\<close>

fun Join :: "string list \<Rightarrow> string \<Rightarrow> string" where
  "Join [] sep = []"
| "Join [x] sep = x"
| "Join (x # y # ys) sep = x @ sep @ Join (y # ys) sep"

text \<open>\<open>strings.Replace(s, old, new, 1)\<close>: the first occurrence of \<open>old\<close> is replaced.\<close>

fun ReplaceFirst :: "string \<Rightarrow> string \<Rightarrow> string \<Rightarrow> string" where
  "ReplaceFirst [] old new = (if old = [] then new else [])"
| "ReplaceFirst (c # cs) old new =
     (if prefix old (c # cs) then new @ drop (length old) (c # cs)
      else c # ReplaceFirst cs old new)"

text \<open>
  \<open>strings.Replace(s, old, new, -1)\<close>: every non-overlapping occurrence, from the left. An
  empty \<open>old\<close> matches before every byte and at the end.
\<close>

function ReplaceAll :: "string \<Rightarrow> string \<Rightarrow> string \<Rightarrow> string" where
  "ReplaceAll s old new =
     (if old = [] then new @ concat (map (\<lambda>c. c # new) s)
      else if s = [] then []
      else if prefix old s then new @ ReplaceAll (drop (length old) s) old new
      else hd s # ReplaceAll (tl s) old new)"
  by pat_completeness auto
termination
  by (relation "measure (\<lambda>(s, old, new). length s)") auto

text \<open>\<open>strings.Trim(s, cutset)\<close>, \<open>strings.HasPrefix\<close>, \<open>strings.TrimPrefix\<close>, \<open>strings.Index\<close>.\<close>

definition Trim :: "string \<Rightarrow> string \<Rightarrow> string" where
  "Trim s cutset = rev (dropWhile (\<lambda>c. c \<in> set cutset) (rev (dropWhile (\<lambda>c. c \<in> set cutset) s)))"

definition HasPrefix :: "string \<Rightarrow> string \<Rightarrow> bool" where
  "HasPrefix s p = prefix p s"

definition TrimPrefix :: "string \<Rightarrow> string \<Rightarrow> string" where
  "TrimPrefix s p = (if prefix p s then drop (length p) s else s)"

section \<open>Package index: the path index and its builder\<close>

subsection \<open>Type descriptors\<close>

text \<open>
  The part of \<open>reflect.Type\<close> that \<open>collect\<close> inspects. \<open>Basic\<close> stands for every kind
  other than pointer, array, slice, map and struct. For a map only the value type
  (\<open>Elem()\<close>) is recorded. The flag of a type says whether the pointer to it implements
  \<open>encoding.TextUnmarshaler\<close>. A field carries its name and the value of its \<open>env\<close> tag
  (empty when the tag is missing).
\<close>

datatype ckind = Array | Slice | Map

datatype gotype =
    Basic string bool
  | Pointer gotype
  | Coll ckind gotype bool
  | Struct "field list" bool
and field = StructField string string gotype

fun FName :: "field \<Rightarrow> string" where
  "FName (StructField n t ty) = n"

fun EnvTag :: "field \<Rightarrow> string" where
  "EnvTag (StructField n t ty) = t"

fun FType :: "field \<Rightarrow> gotype" where
  "FType (StructField n t ty) = ty"

text \<open>\<open>field.IsExported()\<close>: the name starts with an upper-case letter.\<close>

definition IsExported :: "string \<Rightarrow> bool" where
  "IsExported n = (case n of [] \<Rightarrow> False | c # cs \<Rightarrow> c \<in> set upper_letters)"

text \<open>
  Whether \<open>*t\<close> implements \<open>encoding.TextUnmarshaler\<close>. A pointer to a pointer has no
  methods.
\<close>

fun ptr_implements_tm :: "gotype \<Rightarrow> bool" where
  "ptr_implements_tm (Basic n tu) = tu"
| "ptr_implements_tm (Pointer t) = False"
| "ptr_implements_tm (Coll k e tu) = tu"
| "ptr_implements_tm (Struct fs tu) = tu"

subsection \<open>Items and the index\<close>

record Item =
  Path :: string
  Type :: gotype
  Optional :: bool

text \<open>
  \<open>type Index map[string]Item\<close>: an association list with distinct keys; \<open>m[k] = v\<close> is
  \<open>AList.update\<close>, \<open>maps.Insert(m, maps.All(tmp))\<close> is \<open>AList.merge\<close>, \<open>len(m)\<close> is the length.
\<close>

type_synonym index = "(string \<times> Item) list"

text \<open>
  The errors of the packages: \<open>CantSkip p\<close> is "can't skip slice, array or map: p",
  \<open>NotFoundError\<close> is \<open>lookup.NotFoundError\<close>, \<open>IndexOutOfRange\<close> is the run-time panic
  of an index expression, \<open>OtherError\<close> is any error of a function of another module.
\<close>

datatype error =
    CantSkip string
  | IndexOutOfRange
  | NotFoundError string
  | EmptyTargetName
  | FlagNotFound string
  | BindCommandNil
  | SourceFlagNotFound string string
  | TargetFieldNotFound string
  | PathTraversalAttempt string
  | UnknownFileTypeError string
  | InvalidPath string
  | GetwdFailed
  | HomedirFailed
  | OtherError string

subsection \<open>SnakeCase\<close>

text \<open>
  \<open>SnakeCase\<close> returns an all-upper or all-lower string as it is; otherwise the result of
  \<open>stringy.New(s).SnakeCase("?", "")\<close>, a function of another module taken as the
  parameter \<open>sn\<close>, is upper-cased.
\<close>

definition SnakeCase :: "(string \<Rightarrow> string) \<Rightarrow> string \<Rightarrow> string" where
  "SnakeCase sn s = (if ToUpper s = s \<or> ToLower s = s then s else ToUpper (sn s))"

text \<open>
  The key token of a field with no \<open>env\<close> tag: the field's name, with every pair of the
  rename table applied in the order the table is enumerated.
\<close>

definition env_name :: "(string \<times> string) list \<Rightarrow> string \<Rightarrow> string \<Rightarrow> string" where
  "env_name d name env =
     (if env = [] then foldl (\<lambda>e (k, v). ReplaceAll e k v) name d else env)"

text \<open>\<open>s[len(s)-1] += "[]"\<close> on a non-empty slice of strings.\<close>

definition append_last :: "string list \<Rightarrow> string \<Rightarrow> string list" where
  "append_last xs sfx = butlast xs @ [last xs @ sfx]"

subsection \<open>collect\<close>

text \<open>
  \<open>collect(v, tag, path, skip, d)\<close>. The leading loop over pointers is the first
  equation, with \<open>isPtr\<close> as an argument (\<open>False\<close> at every call). The loop over the fields
  of a struct is \<open>collect_fields\<close>, with the map \<open>m\<close> built so far. Indexing the last
  element of an empty \<open>tag\<close> or \<open>path\<close> panics in Go: \<open>IndexOutOfRange\<close>.
\<close>

text \<open>
  The element of a collection as \<open>collect\<close> takes it: \<open>e := v.Elem()\<close>, and one pointer
  is removed when \<open>e.Kind() == reflect.Pointer\<close>. In both branches \<open>ma\<close> is whether the
  pointer to the resulting type implements \<open>encoding.TextUnmarshaler\<close>.
\<close>

definition coll_elem :: "gotype \<Rightarrow> gotype" where
  "coll_elem e0 = (case e0 of Pointer e \<Rightarrow> e | _ \<Rightarrow> e0)"

function collect ::
  "(string \<Rightarrow> string) \<Rightarrow> (string \<times> string) list \<Rightarrow> bool \<Rightarrow> gotype \<Rightarrow>
   string list \<Rightarrow> string list \<Rightarrow> bool \<Rightarrow> error + index"
and collect_fields ::
  "(string \<Rightarrow> string) \<Rightarrow> (string \<times> string) list \<Rightarrow> field list \<Rightarrow> index \<Rightarrow>
   string list \<Rightarrow> string list \<Rightarrow> error + index"
where
  "collect sn d isPtr (Pointer v) tag path skip = collect sn d True v tag path skip"
| "collect sn d isPtr (Coll k e0 tu) tag path skip =
     (let v = Coll k e0 tu; e = coll_elem e0; ma = ptr_implements_tm e in
      if \<not> skip then
        (if tag = [] \<or> path = [] then Inl IndexOutOfRange
         else
           let m = [(Join tag ''_'', \<lparr>Path = Join path ''.'', Type = v, Optional = isPtr\<rparr>)];
               tag' = append_last tag ''[]'';
               path' = append_last path ''[]''
           in if ma then
                Inr (AList.update (Join tag' ''_'')
                       \<lparr>Path = Join path' ''.'', Type = e, Optional = isPtr\<rparr> m)
              else
                (case collect sn d False e tag' path' False of
                   Inl err \<Rightarrow> Inl err
                 | Inr tmp \<Rightarrow> Inr (AList.merge m tmp)))
      else if \<not> ma then
        (case collect sn d False e tag path skip of
           Inl err \<Rightarrow> Inl err
         | Inr tmp \<Rightarrow> if length tmp > 0 then Inl (CantSkip (Join path ''.'')) else Inr [])
      else Inr [])"
| "collect sn d isPtr (Struct fs tu) tag path skip =
     collect_fields sn d fs
       (if \<not> skip \<and> length path > 0
        then [(Join tag ''_'', \<lparr>Path = Join path ''.'', Type = Struct fs tu, Optional = isPtr\<rparr>)]
        else [])
       tag path"
| "collect sn d isPtr (Basic n tu) tag path skip =
     (if \<not> skip
      then Inr [(Join tag ''_'', \<lparr>Path = Join path ''.'', Type = Basic n tu, Optional = isPtr\<rparr>)]
      else Inr [])"
| "collect_fields sn d [] m tag path = Inr m"
| "collect_fields sn d (StructField name env ty # fs) m tag path =
     (if IsExported name then
        (if env = ''--'' then collect_fields sn d fs m tag path
         else if env = ''-'' then
           (case collect sn d False ty tag (path @ [ToLower name]) True of
              Inl err \<Rightarrow> Inl err
            | Inr tmp \<Rightarrow> collect_fields sn d fs (AList.merge m tmp) tag path)
         else
           (case collect sn d False ty (tag @ [SnakeCase sn (env_name d name env)])
                   (path @ [ToLower name]) False of
              Inl err \<Rightarrow> Inl err
            | Inr tmp \<Rightarrow> collect_fields sn d fs (AList.merge m tmp) tag path))
      else collect_fields sn d fs m tag path)"

  by pat_completeness auto
termination
  by (relation "measure (\<lambda>x. case x of
          Inl (sn, d, isPtr, v, tag, path, skip) \<Rightarrow> size v
        | Inr (sn, d, fs, m, tag, path) \<Rightarrow> size_list size fs)")
     (auto simp: coll_elem_def split: gotype.split)

text \<open>\<open>New[T](d)\<close>: pointers are unwrapped; a type that is not a struct has no index.\<close>

fun unwrap :: "gotype \<Rightarrow> gotype" where
  "unwrap (Pointer v) = unwrap v"
| "unwrap v = v"

definition New :: "(string \<Rightarrow> string) \<Rightarrow> gotype \<Rightarrow> (string \<times> string) list \<Rightarrow> error + index" where
  "New sn T d =
     (case unwrap T of
        Struct fs tu \<Rightarrow> collect sn d False (Struct fs tu) [] [] False
      | _ \<Rightarrow> Inr [])"

subsection \<open>The regular expression braces\<close>

text \<open>
  \<open>braces = regexp.MustCompile(`\[([^\]]*)\]`)\<close>. A match starts at a \<open>[\<close> that has a \<open>]\<close>
  somewhere after it and ends at the first such \<open>]\<close>; matches are found from the left and do
  not overlap. \<open>braces_submatches\<close> is the list of the groups \<open>m[1]\<close> of
  \<open>FindAllStringSubmatch(name, -1)\<close>, \<open>braces_replace\<close> is \<open>ReplaceAllString(name, "[]")\<close>.
\<close>

function braces_submatches :: "string \<Rightarrow> string list" where
  "braces_submatches [] = []"
| "braces_submatches (c # cs) =
     (if c = CHR ''['' \<and> dropWhile (\<lambda>x. x \<noteq> CHR '']'') cs \<noteq> []
      then takeWhile (\<lambda>x. x \<noteq> CHR '']'') cs
             # braces_submatches (tl (dropWhile (\<lambda>x. x \<noteq> CHR '']'') cs))
      else braces_submatches cs)"
  by pat_completeness auto
termination
  by (relation "measure length")
     (auto simp: less_Suc_eq_le intro: order_trans [OF diff_le_self length_dropWhile_le])

function braces_replace :: "string \<Rightarrow> string" where
  "braces_replace [] = []"
| "braces_replace (c # cs) =
     (if c = CHR ''['' \<and> dropWhile (\<lambda>x. x \<noteq> CHR '']'') cs \<noteq> []
      then ''[]'' @ braces_replace (tl (dropWhile (\<lambda>x. x \<noteq> CHR '']'') cs))
      else c # braces_replace cs)"
  by pat_completeness auto
termination
  by (relation "measure length")
     (auto simp: less_Suc_eq_le intro: order_trans [OF diff_le_self length_dropWhile_le])

subsection \<open>Find, Exists, PathExists\<close>

text \<open>
  \<open>Find\<close>: the bracket contents are taken from the name, the name is made canonical and
  looked up, and each content in turn replaces the first \<open>[]\<close> of the path.
\<close>

definition Find :: "index \<Rightarrow> string \<Rightarrow> string \<times> bool" where
  "Find v name =
     (let params = braces_submatches name;
          name' = braces_replace name
      in case map_of v name' of
           Some r \<Rightarrow> (foldl (\<lambda>p c. ReplaceFirst p ''[]'' (''['' @ c @ '']'')) (Path r) params, True)
         | None \<Rightarrow> ([], False))"

definition Exists :: "index \<Rightarrow> string \<Rightarrow> bool" where
  "Exists v name = (braces_replace name \<in> set (map fst v))"

definition PathExists :: "index \<Rightarrow> string \<Rightarrow> bool" where
  "PathExists v name = (braces_replace name \<in> set (map (\<lambda>(k, i). Path i) v))"

section \<open>Values and the external setter\<close>

text \<open>
  The values handed to \<open>lookup.Set\<close> as \<open>any\<close>: the string of an environment variable or
  the typed value of a flag.
\<close>

datatype any =
    AString string
  | ABool bool
  | AInt int
  | ASlice "any list"
  | AOther string string

section \<open>Package flags\<close>

text \<open>
  A \<open>pflag.Flag\<close> as far as the package reads it: its name, whether it was set
  explicitly, \<open>Value.Type()\<close> and \<open>Value.String()\<close>. A \<open>pflag.FlagSet\<close> is a value of the
  type \<open>'fs\<close>; its typed accessors (\<open>GetString\<close>, \<open>GetInt\<close>, ...) are the parameter
  \<open>get fs kind name\<close>, its \<open>Lookup\<close> the parameter \<open>lk\<close>.
\<close>

record pflag_Flag =
  Name :: string
  Changed :: bool
  ValueType :: string
  ValueString :: string

record 'fs Flag =
  f_fs :: 'fs
  f_flag :: pflag_Flag
  f_parent :: string
  f_persistent :: bool

text \<open>\<open>type Flags struct\<close>: the map \<open>flags\<close> (\<open>fl_flags\<close>), in the order \<open>range\<close> enumerates it, and \<open>dict\<close> (\<open>fl_dict\<close>).\<close>

record 'fs Flags =
  fl_flags :: "(string \<times> 'fs Flag) list"
  fl_dict :: index

definition NewFlagList :: "index \<Rightarrow> 'fs Flags" where
  "NewFlagList d = \<lparr>fl_flags = [], fl_dict = d\<rparr>"

text \<open>A \<open>cobra.Command\<close>: \<open>Use\<close>, \<open>PersistentFlags()\<close> and \<open>Flags()\<close>.\<close>

record 'fs Command =
  Use :: string
  PersistentFlags :: 'fs
  LocalFlags :: 'fs

text \<open>
  \<open>BindCmdFlag\<close> and \<open>BindFlag\<close> return the error and the flag list after the call
  (unchanged when the call fails). A nil \<open>cmd\<close> or \<open>flag\<close> is \<open>None\<close>.
\<close>

definition BindCmdFlag ::
  "('fs \<Rightarrow> string \<Rightarrow> pflag_Flag option) \<Rightarrow> 'fs Flags \<Rightarrow> 'fs Command option \<Rightarrow> string \<Rightarrow> string \<Rightarrow>
   error option \<times> 'fs Flags" where
  "BindCmdFlag lk f cmd target source =
     (if length target = 0 then (Some EmptyTargetName, f)
      else case cmd of
        None \<Rightarrow> (Some BindCommandNil, f)
      | Some c \<Rightarrow>
          (case (case lk (PersistentFlags c) source of
                   Some v \<Rightarrow> Some (PersistentFlags c, v, True)
                 | None \<Rightarrow>
                     (case lk (LocalFlags c) source of
                        Some v \<Rightarrow> Some (LocalFlags c, v, False)
                      | None \<Rightarrow> None)) of
             None \<Rightarrow> (Some (SourceFlagNotFound source target), f)
           | Some (fs', flag', persistent') \<Rightarrow>
               (case (if length (fl_dict f) > 0 then
                        (case Find (fl_dict f) target of
                           (t, True) \<Rightarrow> Inr t
                         | (t, False) \<Rightarrow>
                             (if \<not> PathExists (fl_dict f) (ToLower target)
                              then Inl (TargetFieldNotFound target)
                              else Inr (ToLower target)))
                      else Inr (ToLower target)) of
                  Inl err \<Rightarrow> (Some err, f)
                | Inr target' \<Rightarrow>
                    (None, f\<lparr>fl_flags := AList.update target'
                       \<lparr>f_fs = fs', f_flag = flag', f_parent = Use c, f_persistent = persistent'\<rparr>
                       (fl_flags f)\<rparr>))))"

definition BindFlag ::
  "'fs Flags \<Rightarrow> 'fs \<Rightarrow> string \<Rightarrow> pflag_Flag option \<Rightarrow> error option \<times> 'fs Flags" where
  "BindFlag f fs' target flag' =
     (if length target = 0 then (Some EmptyTargetName, f)
      else case flag' of
        None \<Rightarrow> (Some (FlagNotFound target), f)
      | Some fl \<Rightarrow>
          (None, f\<lparr>fl_flags := AList.update (ToLower target)
             \<lparr>f_fs = fs', f_flag = fl, f_parent = [], f_persistent = False\<rparr> (fl_flags f)\<rparr>))"

text \<open>\<open>getValue\<close>: the kinds with a typed accessor, every other kind by \<open>Value.String()\<close>.\<close>

definition typed_kinds :: "string list" where
  "typed_kinds =
     [''string'', ''bool'', ''int'', ''stringSlice'', ''boolSlice'', ''intSlice'',
      ''durationSlice'', ''ipSlice'', ''int8'', ''int16'', ''int32'', ''int64'', ''uint'',
      ''uint8'', ''uint16'', ''uint32'', ''uint64'', ''float32'', ''float64'', ''duration'',
      ''ip'']"

definition getValue :: "('fs \<Rightarrow> string \<Rightarrow> string \<Rightarrow> error + any) \<Rightarrow> 'fs Flag \<Rightarrow> error + any" where
  "getValue get f =
     (if ValueType (f_flag f) \<in> set typed_kinds
      then get (f_fs f) (ValueType (f_flag f)) (Name (f_flag f))
      else Inr (AString (ValueString (f_flag f))))"

text \<open>
  \<open>SetFlags(value, f)\<close>: \<open>value\<close> points to the target, which \<open>lookup.Set\<close> (the parameter
  \<open>setter\<close>) updates in place; the model returns the error and the target after the call.
\<close>

fun SetFlags_loop ::
  "('cfg \<Rightarrow> string \<Rightarrow> any \<Rightarrow> error option \<times> 'cfg) \<Rightarrow> ('fs \<Rightarrow> string \<Rightarrow> string \<Rightarrow> error + any) \<Rightarrow>
   'cfg \<Rightarrow> (string \<times> 'fs Flag) list \<Rightarrow> error option \<times> 'cfg" where
  "SetFlags_loop setter get val [] = (None, val)"
| "SetFlags_loop setter get val ((k, v) # rest) =
     (if Changed (f_flag v) then
        (case getValue get v of
           Inl err \<Rightarrow> (Some err, val)
         | Inr x \<Rightarrow>
             (case setter val k x of
                (Some err, val') \<Rightarrow> (Some err, val')
              | (None, val') \<Rightarrow> SetFlags_loop setter get val' rest))
      else SetFlags_loop setter get val rest)"

definition SetFlags ::
  "('cfg \<Rightarrow> string \<Rightarrow> any \<Rightarrow> error option \<times> 'cfg) \<Rightarrow> ('fs \<Rightarrow> string \<Rightarrow> string \<Rightarrow> error + any) \<Rightarrow>
   'cfg \<Rightarrow> 'fs Flags \<Rightarrow> error option \<times> 'cfg" where
  "SetFlags setter get val f = SetFlags_loop setter get val (fl_flags f)"

section \<open>Package env\<close>

record EnvOptions =
  Prefix :: string
  env_Strict :: bool
  env_Index :: index
  env_Replacer :: "(string \<times> string) list"

definition empty_EnvOptions :: EnvOptions where
  "empty_EnvOptions = \<lparr>Prefix = [], env_Strict = False, env_Index = [], env_Replacer = []\<rparr>"

text \<open>The options of the package: each is a function on the options record.\<close>

definition env_WithName :: "string \<Rightarrow> EnvOptions \<Rightarrow> EnvOptions" where
  "env_WithName val0 o' =
     (let val = (if length val0 \<noteq> 0
                 then ReplaceAll (ReplaceAll (ToUpper val0) ''.'' ''_'') ''-'' ''_''
                 else val0)
      in if length val > 0 then o'\<lparr>Prefix := val @ ''_''\<rparr> else o'\<lparr>Prefix := []\<rparr>)"

definition env_WithStrict :: "bool \<Rightarrow> EnvOptions \<Rightarrow> EnvOptions" where
  "env_WithStrict val o' = o'\<lparr>env_Strict := val\<rparr>"

definition env_WithIndex :: "index \<Rightarrow> EnvOptions \<Rightarrow> EnvOptions" where
  "env_WithIndex val o' = o'\<lparr>env_Index := val\<rparr>"

definition env_WithReplacer :: "(string \<times> string) list \<Rightarrow> EnvOptions \<Rightarrow> EnvOptions" where
  "env_WithReplacer val o' = o'\<lparr>env_Replacer := val\<rparr>"

text \<open>\<open>strings.Index(s, "=")\<close>: the position of the first \<open>=\<close>, \<open>None\<close> for \<open>-1\<close>.\<close>

definition IndexEq :: "string \<Rightarrow> nat option" where
  "IndexEq s =
     (if CHR ''='' \<in> set s then Some (length (takeWhile (\<lambda>c. c \<noteq> CHR ''='') s)) else None)"

definition key_cutset :: string where
  "key_cutset = [CHR ''_'', CHR '' '', CHR 0x0A, CHR 0x0D, CHR 0x09]"

definition value_cutset :: string where
  "value_cutset = [CHR '' '', CHR 0x0A, CHR 0x0D, CHR 0x09]"

text \<open>
  The first loop of \<open>Set\<close>, over \<open>os.Environ()\<close>: the map \<open>m\<close> from resolved paths to
  trimmed values, or the error of strict mode.
\<close>

fun scan_environ :: "EnvOptions \<Rightarrow> string list \<Rightarrow> (string \<times> string) list \<Rightarrow> error + (string \<times> string) list" where
  "scan_environ o' [] m = Inr m"
| "scan_environ o' (envVar # rest) m =
     (case IndexEq envVar of
        None \<Rightarrow> scan_environ o' rest m
      | Some i \<Rightarrow>
          (let key = take i envVar; val = drop (i + 1) envVar in
           if length (Prefix o') > 0 \<and> \<not> HasPrefix key (Prefix o') then scan_environ o' rest m
           else
             (let key1 = (if length (Prefix o') > 0 then TrimPrefix key (Prefix o') else key);
                  key2 = ToUpper (Trim key1 key_cutset)
              in case Find (env_Index o') key2 of
                   (k, True) \<Rightarrow> scan_environ o' rest (AList.update k (Trim val value_cutset) m)
                 | (k, False) \<Rightarrow>
                     (if \<not> env_Strict o' then scan_environ o' rest m
                      else Inl (NotFoundError key2)))))"

text \<open>The type assertion of \<open>err\<close> to \<open>*lookup.NotFoundError\<close>.\<close>

fun is_NotFoundError :: "error \<Rightarrow> bool" where
  "is_NotFoundError (NotFoundError n) = True"
| "is_NotFoundError err = False"

text \<open>
  The second loop, over the sorted keys: \<open>lookup.Set\<close> is the parameter \<open>setter\<close>, which
  returns its error and the target after the call.
\<close>

fun apply_keys ::
  "('cfg \<Rightarrow> string \<Rightarrow> any \<Rightarrow> error option \<times> 'cfg) \<Rightarrow> bool \<Rightarrow> (string \<times> string) list \<Rightarrow>
   'cfg \<Rightarrow> string list \<Rightarrow> error option \<times> 'cfg" where
  "apply_keys setter strict m val [] = (None, val)"
| "apply_keys setter strict m val (k # ks) =
     (let v = (case map_of m k of Some x \<Rightarrow> x | None \<Rightarrow> []) in
      case setter val k (AString v) of
        (Some err, val') \<Rightarrow>
          (if is_NotFoundError err \<and> \<not> strict
           then apply_keys setter strict m val' ks
           else (Some err, val'))
      | (None, val') \<Rightarrow> apply_keys setter strict m val' ks)"

text \<open>
  The head of \<open>Set\<close>: the options are applied to an empty record, and an empty index is
  replaced by the index of the type parameter \<open>T\<close>. \<open>sn\<close> is the snake-case function of
  stringy.
\<close>

definition env_options ::
  "(string \<Rightarrow> string) \<Rightarrow> gotype \<Rightarrow> (EnvOptions \<Rightarrow> EnvOptions) list \<Rightarrow> error + EnvOptions" where
  "env_options sn T options =
     (let o0 = fold (\<lambda>opt acc. opt acc) options empty_EnvOptions in
      if length (env_Index o0) = 0
      then (case New sn T (env_Replacer o0) of
              Inl err \<Rightarrow> Inl err
            | Inr d \<Rightarrow> Inr (o0\<lparr>env_Index := d\<rparr>))
      else Inr o0)"

text \<open>
  \<open>Set(value, options...)\<close>. \<open>environ\<close> is \<open>os.Environ()\<close>. The result is the error and the
  target after the call; the Go function returns the nil pointer with an error and
  \<open>value\<close> without.
\<close>

definition env_Set ::
  "(string \<Rightarrow> string) \<Rightarrow> string list \<Rightarrow> ('cfg \<Rightarrow> string \<Rightarrow> any \<Rightarrow> error option \<times> 'cfg) \<Rightarrow>
   gotype \<Rightarrow> 'cfg \<Rightarrow> (EnvOptions \<Rightarrow> EnvOptions) list \<Rightarrow> error option \<times> 'cfg" where
  "env_Set sn environ setter T val options =
     (case env_options sn T options of
        Inl err \<Rightarrow> (Some err, val)
      | Inr o' \<Rightarrow>
          (case scan_environ o' environ [] of
             Inl err \<Rightarrow> (Some err, val)
           | Inr m \<Rightarrow> apply_keys setter (env_Strict o') m val (sort (map fst m))))"

section \<open>Package config\<close>

text \<open>\<open>type FileType int\<close> with \<open>UnknownFileType\<close>, \<open>JSON\<close>, \<open>YAML\<close> numbered by \<open>iota\<close>.\<close>

type_synonym FileType = int

definition UnknownFileType :: FileType where "UnknownFileType = 0"
definition JSON :: FileType where "JSON = 1"
definition YAML :: FileType where "YAML = 2"

record Extension =
  ext_Name :: string
  ext_FileType :: FileType

definition extensions :: "Extension list" where
  "extensions =
     [\<lparr>ext_Name = ''.json'', ext_FileType = JSON\<rparr>,
      \<lparr>ext_Name = ''.yaml'', ext_FileType = YAML\<rparr>,
      \<lparr>ext_Name = ''.yml'', ext_FileType = YAML\<rparr>]"

record 'fs ConfigOptions =
  File :: string
  FileType :: FileType
  cfg_Name :: string
  Paths :: "string list"
  Strict :: bool
  Index :: index
  Flags :: "'fs Flags option"
  Extensions :: "Extension list"
  Replacer :: "(string \<times> string) list"

definition empty_ConfigOptions :: "'fs ConfigOptions" where
  "empty_ConfigOptions =
     \<lparr>File = [], FileType = 0, cfg_Name = [], Paths = [], Strict = False, Index = [],
      Flags = None, Extensions = [], Replacer = []\<rparr>"

definition WithFile :: "string \<Rightarrow> 'fs ConfigOptions \<Rightarrow> 'fs ConfigOptions" where
  "WithFile val o' = o'\<lparr>File := val\<rparr>"

definition WithPaths :: "string list \<Rightarrow> 'fs ConfigOptions \<Rightarrow> 'fs ConfigOptions" where
  "WithPaths val o' = o'\<lparr>Paths := val\<rparr>"

definition WithName :: "string \<Rightarrow> 'fs ConfigOptions \<Rightarrow> 'fs ConfigOptions" where
  "WithName val o' = o'\<lparr>cfg_Name := val\<rparr>"

definition WithIndex :: "index \<Rightarrow> 'fs ConfigOptions \<Rightarrow> 'fs ConfigOptions" where
  "WithIndex val o' = o'\<lparr>Index := val\<rparr>"

definition WithReplacer :: "(string \<times> string) list \<Rightarrow> 'fs ConfigOptions \<Rightarrow> 'fs ConfigOptions" where
  "WithReplacer val o' = o'\<lparr>Replacer := val\<rparr>"

definition WithFlags :: "'fs Flags option \<Rightarrow> 'fs ConfigOptions \<Rightarrow> 'fs ConfigOptions" where
  "WithFlags val o' = o'\<lparr>Flags := val\<rparr>"

definition WithExtension :: "string \<Rightarrow> FileType \<Rightarrow> 'fs ConfigOptions \<Rightarrow> 'fs ConfigOptions" where
  "WithExtension ext fileType o' = o'\<lparr>Extensions := [\<lparr>ext_Name = ext, ext_FileType = fileType\<rparr>]\<rparr>"

definition WithExtensions :: "Extension list \<Rightarrow> 'fs ConfigOptions \<Rightarrow> 'fs ConfigOptions" where
  "WithExtensions val o' = o'\<lparr>Extensions := val\<rparr>"

definition StrictOption :: "'fs ConfigOptions \<Rightarrow> 'fs ConfigOptions" where
  "StrictOption o' = o'\<lparr>Strict := True\<rparr>"

text \<open>\<open>strings.Contains\<close>, \<open>strings.HasSuffix\<close>, \<open>strings.TrimSuffix\<close>.\<close>

definition Contains :: "string \<Rightarrow> string \<Rightarrow> bool" where
  "Contains s sub = sublist sub s"

definition HasSuffix :: "string \<Rightarrow> string \<Rightarrow> bool" where
  "HasSuffix s x = suffix x s"

definition TrimSuffix :: "string \<Rightarrow> string \<Rightarrow> string" where
  "TrimSuffix s x = (if suffix x s then take (length s - length x) s else s)"

definition GetFileType :: "string \<Rightarrow> Extension list \<Rightarrow> FileType" where
  "GetFileType name ext =
     (case filter (\<lambda>v. HasSuffix name (ext_Name v)) (if length ext = 0 then extensions else ext) of
        [] \<Rightarrow> UnknownFileType
      | v # vs \<Rightarrow> ext_FileType v)"

text \<open>
  What \<open>Load\<close> takes from the operating system and from other modules: the environment,
  the file system and \<open>path/filepath\<close>, the codecs (\<open>json.Unmarshal\<close> for \<open>JSON\<close>,
  \<open>yaml.Unmarshal\<close> for \<open>YAML\<close>), \<open>defaults.Set\<close>, \<open>lookup.Exists\<close>, \<open>lookup.Create\<close>,
  \<open>lookup.Set\<close>, the snake-case function of stringy, the typed accessors of a flag set and
  the zero value \<open>*new(T)\<close>. A function that updates the target in place returns its error
  and the target after the call.
\<close>

record DirEntry =
  de_Name :: string
  de_IsDir :: bool

record ('cfg, 'fs) world =
  Getenv :: "string \<Rightarrow> string"
  Environ :: "string list"
  Getwd :: "error + string"
  UserHomeDir :: "error + string"
  Abs :: "string \<Rightarrow> error + string"
  Clean :: "string \<Rightarrow> string"
  ReadDir :: "string \<Rightarrow> error + DirEntry list"
  PathJoin :: "string \<Rightarrow> string \<Rightarrow> string"
  Ext :: "string \<Rightarrow> string"
  ReadFile :: "string \<Rightarrow> error + string"
  Unmarshal :: "FileType \<Rightarrow> string \<Rightarrow> 'cfg \<Rightarrow> error option \<times> 'cfg"
  defaults_Set :: "'cfg \<Rightarrow> error option \<times> 'cfg"
  lookup_Exists :: "'cfg \<Rightarrow> string \<Rightarrow> error + bool"
  lookup_Create :: "'cfg \<Rightarrow> string \<Rightarrow> error option \<times> 'cfg"
  lookup_Set :: "'cfg \<Rightarrow> string \<Rightarrow> any \<Rightarrow> error option \<times> 'cfg"
  stringy :: "string \<Rightarrow> string"
  flag_Get :: "'fs \<Rightarrow> string \<Rightarrow> string \<Rightarrow> error + any"
  zero :: 'cfg

text \<open>The inner loop of \<open>findConfigFile\<close> over the entries of one directory.\<close>

fun find_in_entries ::
  "('cfg, 'fs) world \<Rightarrow> 'fs ConfigOptions \<Rightarrow> string \<Rightarrow> DirEntry list \<Rightarrow> (string \<times> FileType) option" where
  "find_in_entries w o' fp [] = None"
| "find_in_entries w o' fp (e # es) =
     (let filename = de_Name e in
      if Contains filename ''..'' then find_in_entries w o' fp es
      else if de_IsDir e \<or> length filename < 4 \<or> hd filename = CHR ''.''
        then find_in_entries w o' fp es
      else if Ext w filename = [] then find_in_entries w o' fp es
      else if TrimSuffix filename (Ext w filename) \<noteq> cfg_Name o' then find_in_entries w o' fp es
      else if GetFileType filename (Extensions o') = UnknownFileType
        then find_in_entries w o' fp es
      else Some (PathJoin w fp filename, GetFileType filename (Extensions o')))"

text \<open>The outer loop over the search paths.\<close>

fun find_in_paths ::
  "('cfg, 'fs) world \<Rightarrow> 'fs ConfigOptions \<Rightarrow> string list \<Rightarrow> error + (string \<times> FileType)" where
  "find_in_paths w o' [] = Inr ([], UnknownFileType)"
| "find_in_paths w o' (p # ps) =
     (case Abs w p of
        Inl err \<Rightarrow> Inl (InvalidPath [])
      | Inr fp0 \<Rightarrow>
          (let fp = Clean w fp0 in
           case ReadDir w fp of
             Inl err \<Rightarrow> find_in_paths w o' ps
           | Inr entries \<Rightarrow>
               (case find_in_entries w o' fp entries of
                  Some r \<Rightarrow> Inr r
                | None \<Rightarrow> find_in_paths w o' ps)))"

text \<open>
  \<open>findConfigFile(o)\<close>: the options it has updated (\<open>Extensions\<close>, \<open>Name\<close>) together with
  the error or the file and its type.
\<close>

definition findConfigFile ::
  "('cfg, 'fs) world \<Rightarrow> 'fs ConfigOptions \<Rightarrow> 'fs ConfigOptions \<times> (error + (string \<times> FileType))" where
  "findConfigFile w o0 =
     (let o1 = (if length (Extensions o0) = 0 then o0\<lparr>Extensions := extensions\<rparr> else o0);
          o2 = (if cfg_Name o1 = [] then o1\<lparr>cfg_Name := ''config''\<rparr> else o1);
          tmp = Getenv w ''CONFIG''
      in if tmp \<noteq> [] then
           (if Contains tmp ''..'' then (o2, Inl (PathTraversalAttempt tmp))
            else
              (case Abs w (Clean w tmp) of
                 Inl err \<Rightarrow> (o2, Inl (InvalidPath (Clean w tmp)))
               | Inr name \<Rightarrow>
                   (if GetFileType name (Extensions o2) = UnknownFileType
                    then (o2, Inl (UnknownFileTypeError name))
                    else (o2, Inr (name, GetFileType name (Extensions o2))))))
         else
           (case Getwd w of
              Inl err \<Rightarrow> (o2, Inl GetwdFailed)
            | Inr cwd \<Rightarrow>
                (case UserHomeDir w of
                   Inl err \<Rightarrow> (o2, Inl HomedirFailed)
                 | Inr home \<Rightarrow> (o2, find_in_paths w o2 (Paths o2 @ [cwd] @ [home])))))"

text \<open>The loop over the optional paths: those that exist on the target.\<close>

fun existing_paths :: "('cfg, 'fs) world \<Rightarrow> 'cfg \<Rightarrow> string list \<Rightarrow> error + string list" where
  "existing_paths w cfg [] = Inr []"
| "existing_paths w cfg (v # vs) =
     (case lookup_Exists w cfg v of
        Inl err \<Rightarrow> Inl err
      | Inr ok \<Rightarrow>
          (case existing_paths w cfg vs of
             Inl err \<Rightarrow> Inl err
           | Inr changed \<Rightarrow> Inr (if ok then v # changed else changed)))"

text \<open>The loop that creates the changed optional paths on the fresh record.\<close>

fun create_paths :: "('cfg, 'fs) world \<Rightarrow> 'cfg \<Rightarrow> string list \<Rightarrow> error option \<times> 'cfg" where
  "create_paths w tmp [] = (None, tmp)"
| "create_paths w tmp (v # vs) =
     (case lookup_Create w tmp v of
        (Some err, tmp') \<Rightarrow> (Some err, tmp')
      | (None, tmp') \<Rightarrow> create_paths w tmp' vs)"

text \<open>The switch over the file type.\<close>

definition unmarshal_file ::
  "('cfg, 'fs) world \<Rightarrow> string \<Rightarrow> FileType \<Rightarrow> string \<Rightarrow> 'cfg \<Rightarrow> error option \<times> 'cfg" where
  "unmarshal_file w file ft data cfg =
     (if ft = JSON then Unmarshal w JSON data cfg
      else if ft = YAML then Unmarshal w YAML data cfg
      else (Some (UnknownFileTypeError file), cfg))"

text \<open>
  The part of \<open>Load\<close> from \<open>os.ReadFile\<close> to the end of the reload: the target after the
  file has been read, or the error and the file name returned with it.
\<close>

definition load_file ::
  "('cfg, 'fs) world \<Rightarrow> 'fs ConfigOptions \<Rightarrow> string list \<Rightarrow> 'cfg \<Rightarrow> (string \<times> error) + 'cfg" where
  "load_file w o' optional cfg =
     (case ReadFile w (File o') of
        Inl err \<Rightarrow> Inl (File o', err)
      | Inr data \<Rightarrow>
          (case unmarshal_file w (File o') (FileType o') data cfg of
             (Some err, cfg1) \<Rightarrow> Inl (File o', err)
           | (None, cfg1) \<Rightarrow>
               (if length optional > 0 then
                  (case existing_paths w cfg1 optional of
                     Inl err \<Rightarrow> Inl ([], err)
                   | Inr changed \<Rightarrow>
                       (if length changed > 0 then
                          (case defaults_Set w (zero w) of
                             (Some err, tmp) \<Rightarrow> Inl ([], err)
                           | (None, tmp) \<Rightarrow>
                               (case create_paths w tmp changed of
                                  (Some err, tmp1) \<Rightarrow> Inl ([], err)
                                | (None, tmp1) \<Rightarrow>
                                    (case unmarshal_file w (File o') (FileType o') data tmp1 of
                                       (Some err, tmp2) \<Rightarrow> Inl (File o', err)
                                     | (None, tmp2) \<Rightarrow> Inr tmp2)))
                        else Inr cfg1))
                else Inr cfg1)))"

text \<open>
  The stages of \<open>Load\<close>, in the order of the code: the options are applied to an empty
  record; the file is resolved (\<open>resolve_file\<close>); the defaults are set on a new record; the
  index is built unless one was given (\<open>resolve_index\<close>); the file is read
  (\<open>load_file\<close>); the environment layer runs when a name is set (\<open>env_layer\<close>); the flag
  layer runs when flags are bound (\<open>flag_layer\<close>).
\<close>

definition options_of :: "('fs ConfigOptions \<Rightarrow> 'fs ConfigOptions) list \<Rightarrow> 'fs ConfigOptions" where
  "options_of options = fold (\<lambda>opt acc. opt acc) options empty_ConfigOptions"

definition resolve_file :: "('cfg, 'fs) world \<Rightarrow> 'fs ConfigOptions \<Rightarrow> error + 'fs ConfigOptions" where
  "resolve_file w o0 =
     (if File o0 = [] then
        (case findConfigFile w o0 of
           (o1, Inl err) \<Rightarrow> Inl err
         | (o1, Inr (f, ft)) \<Rightarrow> Inr (o1\<lparr>File := f, FileType := ft\<rparr>))
      else if Contains (File o0) ''..'' then Inl (PathTraversalAttempt (File o0))
      else Inr (o0\<lparr>FileType := GetFileType (File o0) extensions\<rparr>))"

definition resolve_index ::
  "(string \<Rightarrow> string) \<Rightarrow> gotype \<Rightarrow> 'fs ConfigOptions \<Rightarrow> error + 'fs ConfigOptions" where
  "resolve_index sn T o1 =
     (if length (Index o1) = 0
      then (case New sn T (Replacer o1) of
              Inl err \<Rightarrow> Inl err
            | Inr d \<Rightarrow> Inr (o1\<lparr>Index := d\<rparr>))
      else Inr o1)"

definition optional_paths :: "'fs ConfigOptions \<Rightarrow> string list" where
  "optional_paths o2 = map (\<lambda>(k, v). Path v) (filter (\<lambda>(k, v). Optional v) (Index o2))"

definition env_layer ::
  "('cfg, 'fs) world \<Rightarrow> gotype \<Rightarrow> 'fs ConfigOptions \<Rightarrow> 'cfg \<Rightarrow> error option \<times> 'cfg" where
  "env_layer w T o2 cfg1 =
     (if length (cfg_Name o2) > 0
      then env_Set (stringy w) (Environ w) (lookup_Set w) T cfg1
             [env_WithName (cfg_Name o2), env_WithStrict (Strict o2), env_WithIndex (Index o2)]
      else (None, cfg1))"

definition flag_layer :: "('cfg, 'fs) world \<Rightarrow> 'fs ConfigOptions \<Rightarrow> 'cfg \<Rightarrow> error option \<times> 'cfg" where
  "flag_layer w o2 cfg2 =
     (case Flags o2 of
        Some f \<Rightarrow> SetFlags (lookup_Set w) (flag_Get w) cfg2 f
      | None \<Rightarrow> (None, cfg2))"

text \<open>
  \<open>Load[P, T](options...)\<close>: the record (\<open>None\<close> for the nil pointer), the file name and
  the error.
\<close>

definition Load ::
  "('cfg, 'fs) world \<Rightarrow> gotype \<Rightarrow> ('fs ConfigOptions \<Rightarrow> 'fs ConfigOptions) list \<Rightarrow>
   'cfg option \<times> string \<times> error option" where
  "Load w T options =
     (case resolve_file w (options_of options) of
        Inl err \<Rightarrow> (None, [], Some err)
      | Inr o1 \<Rightarrow>
          (case defaults_Set w (zero w) of
             (Some err, cfg0) \<Rightarrow> (None, [], Some err)
           | (None, cfg0) \<Rightarrow>
               (case resolve_index (stringy w) T o1 of
                  Inl err \<Rightarrow> (None, [], Some err)
                | Inr o2 \<Rightarrow>
                    (case (if length (File o2) > 0
                           then load_file w o2 (optional_paths o2) cfg0
                           else Inr cfg0) of
                       Inl (f, err) \<Rightarrow> (None, f, Some err)
                     | Inr cfg1 \<Rightarrow>
                         (case env_layer w T o2 cfg1 of
                            (Some err, cfg2) \<Rightarrow> (None, File o2, Some err)
                          | (None, cfg2) \<Rightarrow>
                              (case flag_layer w o2 cfg2 of
                                 (Some err, cfg3) \<Rightarrow> (None, File o2, Some err)
                               | (None, cfg3) \<Rightarrow> (Some cfg3, File o2, None)))))))"

section \<open>Notions used in the statements\<close>

fun count_ph :: "string \<Rightarrow> nat" where
  "count_ph (a # b # cs) =
     (if a = CHR ''['' \<and> b = CHR '']'' then Suc (count_ph cs) else count_ph (b # cs))"
| "count_ph cs = 0"

definition bracket_free :: "string \<Rightarrow> bool" where
  "bracket_free s = (CHR ''['' \<notin> set s \<and> CHR '']'' \<notin> set s)"

fun paired :: "string \<Rightarrow> bool" where
  "paired [] = True"
| "paired [a] = (a \<noteq> CHR ''['' \<and> a \<noteq> CHR '']'')"
| "paired (a # b # cs) =
     (if a = CHR ''['' then b = CHR '']'' \<and> paired cs else a \<noteq> CHR '']'' \<and> paired (b # cs))"

function tokens_clean :: "(string \<Rightarrow> string) \<Rightarrow> (string \<times> string) list \<Rightarrow> gotype \<Rightarrow> bool"
and fields_clean :: "(string \<Rightarrow> string) \<Rightarrow> (string \<times> string) list \<Rightarrow> field list \<Rightarrow> bool"
where
  "tokens_clean sn d (Basic n tu) = True"
| "tokens_clean sn d (Pointer t) = tokens_clean sn d t"
| "tokens_clean sn d (Coll k e0 tu) =
     (if ptr_implements_tm (coll_elem e0) then True else tokens_clean sn d (coll_elem e0))"
| "tokens_clean sn d (Struct fs tu) = fields_clean sn d fs"
| "fields_clean sn d [] = True"
| "fields_clean sn d (StructField name env ty # fs) =
     ((if IsExported name \<and> env \<noteq> ''--''
       then bracket_free (ToLower name)
            \<and> (if env = ''-'' then True else bracket_free (SnakeCase sn (env_name d name env)))
            \<and> tokens_clean sn d ty
       else True)
      \<and> fields_clean sn d fs)"
  by pat_completeness auto
termination
  by (relation "measure (\<lambda>x. case x of
          Inl (sn, d, v) \<Rightarrow> size v
        | Inr (sn, d, fs) \<Rightarrow> size_list size fs)")
     (auto simp: coll_elem_def split: gotype.split)

definition segs_ok :: "string list \<Rightarrow> string list \<Rightarrow> bool" where
  "segs_ok tag path =
     ((\<forall>s\<in>set tag. paired s) \<and> (\<forall>s\<in>set path. paired s)
      \<and> sum_list (map count_ph tag) = sum_list (map count_ph path))"

definition entry_ok :: "string \<times> Item \<Rightarrow> bool" where
  "entry_ok e = (paired (fst e) \<and> paired (Path (snd e)) \<and> count_ph (fst e) = count_ph (Path (snd e)))"


fun fill :: "string \<Rightarrow> string list \<Rightarrow> string" where
  "fill s [] = s"
| "fill [] (c # cs) = []"
| "fill [a] (c # cs) = [a]"
| "fill (a # b # s) (c # cs) =
     (if a = CHR ''['' \<and> b = CHR '']'' then ''['' @ c @ '']'' @ fill s cs
      else a # fill (b # s) (c # cs))"

fun noph :: "string \<Rightarrow> bool" where
  "noph [] = True"
| "noph [a] = (a \<noteq> CHR ''['')"
| "noph (a # b # s) = (\<not> (a = CHR ''['' \<and> b = CHR '']'') \<and> noph (b # s))"

abbreviation step :: "string \<Rightarrow> string \<Rightarrow> string" where
  "step p c \<equiv> ReplaceFirst p ''[]'' (''['' @ c @ '']'')"


text \<open>
  When the walk fails. \<open>yields_flat t\<close>: the subtree of \<open>t\<close>, flattened into its parent
  (\<open>skip\<close>), contributes at least one entry. \<open>conflict skip t\<close>: the walk of \<open>t\<close> reaches
  a collection that is flattened (directly tagged \<open>env:"-"\<close>, or the element of such a
  collection), whose element type is no text unmarshaler and whose flattened element
  subtree contributes an entry.
\<close>

fun yields_flat :: "gotype \<Rightarrow> bool"
and fields_yield :: "field list \<Rightarrow> bool"
where
  "yields_flat (Basic n tu) = False"
| "yields_flat (Pointer t) = yields_flat t"
| "yields_flat (Coll k e0 tu) = False"
| "yields_flat (Struct fs tu) = fields_yield fs"
| "fields_yield [] = False"
| "fields_yield (StructField name env ty # fs) =
     ((IsExported name \<and> env \<noteq> ''--'' \<and> (if env = ''-'' then yields_flat ty else True))
      \<or> fields_yield fs)"

function conflict :: "bool \<Rightarrow> gotype \<Rightarrow> bool"
and fields_conflict :: "field list \<Rightarrow> bool"
where
  "conflict skip (Basic n tu) = False"
| "conflict skip (Pointer t) = conflict skip t"
| "conflict skip (Coll k e0 tu) =
     (\<not> ptr_implements_tm (coll_elem e0)
      \<and> (conflict skip (coll_elem e0) \<or> (skip \<and> yields_flat (coll_elem e0))))"
| "conflict skip (Struct fs tu) = fields_conflict fs"
| "fields_conflict [] = False"
| "fields_conflict (StructField name env ty # fs) =
     ((IsExported name \<and> env \<noteq> ''--'' \<and> conflict (env = ''-'') ty) \<or> fields_conflict fs)"
  by pat_completeness auto
termination
  by (relation "measure (\<lambda>x. case x of
          Inl (skip, v) \<Rightarrow> size v
        | Inr fs \<Rightarrow> size_list size fs)")
     (auto simp: coll_elem_def split: gotype.split)

definition flatten_conflict :: "gotype \<Rightarrow> bool" where
  "flatten_conflict T = (case unwrap T of Struct fs tu \<Rightarrow> fields_conflict fs | _ \<Rightarrow> False)"

text \<open>
  The environment layer. \<open>env_key o' e\<close> is the key of the entry \<open>e\<close> of the environment
  after prefix filtering and normalisation (\<open>None\<close> when the entry has no \<open>=\<close> or lacks the
  prefix); an entry is unresolved when its key is not found in the index, and
  \<open>resolved_path\<close> is the path found otherwise. \<open>log_set fail\<close> is a setter whose target is
  the list of its own calls, in order, and whose error is given by \<open>fail\<close>. Strings are
  ordered as lists of bytes, lexicographically, as Go compares them.
\<close>

definition env_key :: "EnvOptions \<Rightarrow> string \<Rightarrow> string option" where
  "env_key o' envVar =
     (case IndexEq envVar of
        None \<Rightarrow> None
      | Some i \<Rightarrow>
          (let key = take i envVar in
           if length (Prefix o') > 0 \<and> \<not> HasPrefix key (Prefix o') then None
           else Some (ToUpper (Trim (if length (Prefix o') > 0 then TrimPrefix key (Prefix o') else key)
                                    key_cutset))))"

definition unresolved :: "EnvOptions \<Rightarrow> string \<Rightarrow> bool" where
  "unresolved o' envVar =
     (case env_key o' envVar of None \<Rightarrow> False | Some k \<Rightarrow> \<not> snd (Find (env_Index o') k))"

definition resolved_path :: "EnvOptions \<Rightarrow> string \<Rightarrow> string option" where
  "resolved_path o' envVar =
     (case env_key o' envVar of
        None \<Rightarrow> None
      | Some k \<Rightarrow> (if snd (Find (env_Index o') k) then Some (fst (Find (env_Index o') k)) else None))"

definition log_set ::
  "(string \<Rightarrow> any \<Rightarrow> error option) \<Rightarrow> (string \<times> any) list \<Rightarrow> string \<Rightarrow> any \<Rightarrow>
   error option \<times> (string \<times> any) list" where
  "log_set fail log k v = (fail k v, log @ [(k, v)])"

text \<open>
  Record types used as concrete inputs: a slice of structs holding a map, a struct with
  one string field whose tag is given, and the corresponding indexes.
\<close>

definition string_type :: gotype where
  "string_type = Basic ''string'' False"

definition settings_type :: gotype where
  "settings_type =
     Struct [StructField ''SETTINGS'' []
       (Coll Slice (Struct [StructField ''TAGS'' [] (Coll Map string_type False)] False) False)]
       False"

definition settings_index :: index where
  "settings_index =
     [(''SETTINGS[]'',
       \<lparr>Path = ''settings[]'',
        Type = Struct [StructField ''TAGS'' [] (Coll Map string_type False)] False,
        Optional = False\<rparr>),
      (''SETTINGS[]_TAGS[]'',
       \<lparr>Path = ''settings[].tags[]'', Type = string_type, Optional = False\<rparr>),
      (''SETTINGS[]_TAGS'',
       \<lparr>Path = ''settings[].tags'', Type = Coll Map string_type False, Optional = False\<rparr>),
      (''SETTINGS'',
       \<lparr>Path = ''settings'',
        Type = Coll Slice (Struct [StructField ''TAGS'' [] (Coll Map string_type False)] False) False,
        Optional = False\<rparr>)]"

definition tagged_type :: "string \<Rightarrow> gotype" where
  "tagged_type tag = Struct [StructField ''F'' tag string_type] False"

definition hidden_slice_type :: gotype where
  "hidden_slice_type = Struct [StructField ''Hidden'' ''-'' (Coll Slice string_type False)] False"

definition nested_skip_type :: gotype where
  "nested_skip_type =
     Struct [StructField ''Nested'' ''-''
       (Coll Slice (Struct [StructField ''Name'' [] string_type] False) False)] False"

text \<open>
  Concrete collaborators used as inputs: a target that is an association list from paths
  to values with a setter that stores the value, a flag set with no typed accessor, an
  index with the one key \<open>HOST\<close>, and a flag named \<open>port\<close> of a kind without typed accessor.
\<close>

definition kv_set :: "(string \<times> any) list \<Rightarrow> string \<Rightarrow> any \<Rightarrow> error option \<times> (string \<times> any) list" where
  "kv_set c k v = (None, AList.update k v c)"

definition no_get :: "unit \<Rightarrow> string \<Rightarrow> string \<Rightarrow> error + any" where
  "no_get u kind name = Inl (OtherError ''flag accessed but not defined'')"

definition host_index :: index where
  "host_index = [(''HOST'', \<lparr>Path = ''host'', Type = string_type, Optional = False\<rparr>)]"

definition port_flag :: "bool \<Rightarrow> string \<Rightarrow> unit Flag" where
  "port_flag changed v =
     \<lparr>f_fs = (), f_flag = \<lparr>Name = ''port'', Changed = changed, ValueType = ''custom'', ValueString = v\<rparr>,
      f_parent = [], f_persistent = False\<rparr>"


definition host_type :: gotype where
  "host_type = Struct [StructField ''HOST'' [] string_type, StructField ''PORT'' [] string_type] False"



definition strict_app_options :: EnvOptions where
  "strict_app_options =
     \<lparr>Prefix = ''APP_'', env_Strict = True,
      env_Index = [(''HOST'', \<lparr>Path = ''host'', Type = string_type, Optional = False\<rparr>),
                   (''PORT'', \<lparr>Path = ''port'', Type = string_type, Optional = False\<rparr>)],
      env_Replacer = []\<rparr>"


subsection \<open>The layers of a load\<close>

text \<open>
  What each layer of \<open>Load\<close> writes, read off the effective options \<open>o2\<close> (the options after
  the file and the index are resolved). The environment layer: for every variable, in the
  order of the environment, that resolves to a path, the path and the trimmed value; the map
  that \<open>env.Set\<close> builds keeps the last value of a path. The flag layer: for every bound
  flag that was changed and whose value can be read, the target path and the value. The
  file layer: the bytes of the file, when a file is set and can be read.
\<close>

definition env_value :: "string \<Rightarrow> string" where
  "env_value e = (case IndexEq e of None \<Rightarrow> [] | Some i \<Rightarrow> Trim (drop (i + 1) e) value_cutset)"

fun env_entries_of :: "EnvOptions \<Rightarrow> string list \<Rightarrow> (string \<times> string) list" where
  "env_entries_of oe [] = []"
| "env_entries_of oe (e # env) =
     (case resolved_path oe e of
        Some k \<Rightarrow> (k, env_value e) # env_entries_of oe env
      | None \<Rightarrow> env_entries_of oe env)"

definition env_entries :: "('cfg, 'fs) world \<Rightarrow> gotype \<Rightarrow> 'fs ConfigOptions \<Rightarrow> (string \<times> string) list" where
  "env_entries w T o2 =
     (if length (cfg_Name o2) > 0 then
        (case env_options (stringy w) T
                [env_WithName (cfg_Name o2), env_WithStrict (Strict o2), env_WithIndex (Index o2)] of
           Inr oe \<Rightarrow> env_entries_of oe (Environ w)
         | Inl e \<Rightarrow> [])
      else [])"

fun flag_entries_of ::
  "('fs \<Rightarrow> string \<Rightarrow> string \<Rightarrow> error + any) \<Rightarrow> (string \<times> 'fs Flag) list \<Rightarrow> (string \<times> any) list" where
  "flag_entries_of get [] = []"
| "flag_entries_of get ((k, v) # fl) =
     (if Changed (f_flag v)
      then (case getValue get v of
              Inr x \<Rightarrow> (k, x) # flag_entries_of get fl
            | Inl e \<Rightarrow> flag_entries_of get fl)
      else flag_entries_of get fl)"

definition flag_entries :: "('cfg, 'fs) world \<Rightarrow> 'fs ConfigOptions \<Rightarrow> (string \<times> any) list" where
  "flag_entries w o2 =
     (case Flags o2 of None \<Rightarrow> [] | Some f \<Rightarrow> flag_entries_of (flag_Get w) (fl_flags f))"

definition file_data :: "('cfg, 'fs) world \<Rightarrow> 'fs ConfigOptions \<Rightarrow> string option" where
  "file_data w o2 =
     (if length (File o2) > 0
      then (case ReadFile w (File o2) of Inr data \<Rightarrow> Some data | Inl e \<Rightarrow> None)
      else None)"

definition effective_options ::
  "('cfg, 'fs) world \<Rightarrow> gotype \<Rightarrow> ('fs ConfigOptions \<Rightarrow> 'fs ConfigOptions) list \<Rightarrow> 'fs ConfigOptions" where
  "effective_options w T options =
     projr (resolve_index (stringy w) T (projr (resolve_file w (options_of options))))"

text \<open>
  The collaborators of \<open>Load\<close> (the default setter, the decoders, the path setter, the path
  creation) are not part of the repository: \<open>Load\<close> takes them from the \<open>world\<close>. What
  a statement about the loaded record needs from them is said as a contract on an
  observation \<open>obs\<close> of the record, for one path \<open>p\<close>:

  \<^item> \<open>setter_at\<close>: a successful \<open>lookup.Set\<close> at \<open>p\<close> makes the observation the value that was
    set (read by \<open>rd\<close>), a successful one at another path leaves it, and one that fails with
    a not-found error was not at \<open>p\<close> and leaves it;
  \<^item> \<open>file_at\<close>: a successful decoding of \<open>data\<close> makes the observation the value the file
    gives for it (\<open>fv data\<close>), and leaves it when the file gives none;
  \<^item> \<open>create_keeps\<close>: \<open>lookup.Create\<close> leaves the observation;
  \<^item> \<open>default_at\<close>: the observation of a new record after \<open>defaults.Set\<close> is \<open>dflt\<close>.
\<close>

definition setter_at :: "('cfg, 'fs) world \<Rightarrow> string \<Rightarrow> ('cfg \<Rightarrow> 'a) \<Rightarrow> (any \<Rightarrow> 'a) \<Rightarrow> bool" where
  "setter_at w p obs rd =
     (\<forall>c k v e c'. lookup_Set w c k v = (e, c') \<longrightarrow>
        (e = None \<longrightarrow> obs c' = (if k = p then rd v else obs c))
        \<and> (\<forall>n. e = Some (NotFoundError n) \<longrightarrow> k \<noteq> p \<and> obs c' = obs c))"

definition file_at :: "('cfg, 'fs) world \<Rightarrow> ('cfg \<Rightarrow> 'a) \<Rightarrow> (string \<Rightarrow> 'a option) \<Rightarrow> bool" where
  "file_at w obs fv =
     (\<forall>ft data c c'. Unmarshal w ft data c = (None, c') \<longrightarrow>
        obs c' = (case fv data of Some x \<Rightarrow> x | None \<Rightarrow> obs c))"

definition create_keeps :: "('cfg, 'fs) world \<Rightarrow> ('cfg \<Rightarrow> 'a) \<Rightarrow> bool" where
  "create_keeps w obs = (\<forall>c q c'. lookup_Create w c q = (None, c') \<longrightarrow> obs c' = obs c)"

definition default_at :: "('cfg, 'fs) world \<Rightarrow> ('cfg \<Rightarrow> 'a) \<Rightarrow> 'a \<Rightarrow> bool" where
  "default_at w obs dflt = (\<forall>c0. defaults_Set w (zero w) = (None, c0) \<longrightarrow> obs c0 = dflt)"

text \<open>
  Concrete collaborators for a record with the one field \<open>port\<close>, kept as an association
  list: the default of \<open>port\<close> is \<open>8080\<close>, every file is read as \<open>9090\<close> and decoded into
  \<open>port\<close>, no configuration file is found by the search, and the environment is a parameter.
\<close>

definition port_world :: "string list \<Rightarrow> ((string \<times> any) list, unit) world" where
  "port_world environ =
     \<lparr>Getenv = (\<lambda>n. []), Environ = environ, Getwd = Inr ''/'', UserHomeDir = Inr ''/'',
      Abs = (\<lambda>p. Inr p), Clean = (\<lambda>p. p), ReadDir = (\<lambda>p. Inr []),
      PathJoin = (\<lambda>a b. a @ ''/'' @ b), Ext = (\<lambda>f. []), ReadFile = (\<lambda>f. Inr ''9090''),
      Unmarshal = (\<lambda>ft data c. (None, AList.update ''port'' (AString data) c)),
      defaults_Set = (\<lambda>c. (None, AList.update ''port'' (AString ''8080'') c)),
      lookup_Exists = (\<lambda>c q. Inr (map_of c q \<noteq> None)),
      lookup_Create = (\<lambda>c q. (None, c)),
      lookup_Set = kv_set, stringy = (\<lambda>s. s), flag_Get = no_get, zero = []\<rparr>"

definition port_flags :: "unit Flags" where
  "port_flags = \<lparr>fl_flags = [(''port'', port_flag True ''12345'')], fl_dict = []\<rparr>"

definition port_obs :: "(string \<times> any) list \<Rightarrow> any option" where
  "port_obs c = map_of c ''port''"

definition port_env :: "string list" where
  "port_env = [''MY_APP_PORT=9999'']"

definition flag_options :: "(unit ConfigOptions \<Rightarrow> unit ConfigOptions) list" where
  "flag_options = [WithFile ''app.json'', WithName ''my-app'', WithFlags (Some port_flags)]"

definition env_only_options :: "(unit ConfigOptions \<Rightarrow> unit ConfigOptions) list" where
  "env_only_options = [WithFile ''app.json'', WithName ''my-app'']"

definition file_only_options :: "(unit ConfigOptions \<Rightarrow> unit ConfigOptions) list" where
  "file_only_options = [WithFile ''app.json'']"

section \<open>Properties of the index builder\<close>

lemma paired_bracket_free: "bracket_free s \<Longrightarrow> paired s"
  by (induction s rule: paired.induct) (auto simp: bracket_free_def)

lemma paired_append: "paired a \<Longrightarrow> paired b \<Longrightarrow> paired (a @ b)"
proof (induction a rule: paired.induct)
  case 1 then show ?case by simp
next
  case (2 a) then show ?case by (cases b) auto
next
  case (3 a b cs) then show ?case by (auto split: if_splits)
qed

lemma count_ph_append: "paired a \<Longrightarrow> count_ph (a @ b) = count_ph a + count_ph b"
proof (induction a rule: paired.induct)
  case 1 then show ?case by simp
next
  case (2 a) then show ?case by (cases b) auto
next
  case (3 a b cs) then show ?case by (auto split: if_splits)
qed

lemma count_ph_bracket_free: "bracket_free s \<Longrightarrow> count_ph s = 0"
  by (induction s rule: count_ph.induct) (auto simp: bracket_free_def)

lemma paired_Join:
  "\<forall>s\<in>set xs. paired s \<Longrightarrow> bracket_free sep \<Longrightarrow> paired (Join xs sep)"
  by (induction xs sep rule: Join.induct) (auto simp: paired_append paired_bracket_free)

lemma count_ph_Join:
  "\<forall>s\<in>set xs. paired s \<Longrightarrow> bracket_free sep \<Longrightarrow> count_ph (Join xs sep) = sum_list (map count_ph xs)"
  by (induction xs sep rule: Join.induct)
     (auto simp: count_ph_append paired_bracket_free count_ph_bracket_free)


lemma set_update_subset: "set (AList.update k v al) \<subseteq> insert (k, v) (set al)"
  by (induction al) auto

lemma set_merge_subset: "set (AList.merge m tmp) \<subseteq> set m \<union> set tmp"
proof (induction tmp arbitrary: m)
  case Nil then show ?case by simp
next
  case (Cons a tmp)
  obtain k v where a: "a = (k, v)" by (cases a)
  have "set (AList.merge m (a # tmp)) = set (AList.update k v (AList.merge m tmp))"
    by (simp add: a AList.merge_def)
  also have "\<dots> \<subseteq> insert (k, v) (set (AList.merge m tmp))" by (rule set_update_subset)
  finally show ?case using Cons.IH [of m] a by auto
qed

lemma ball_update:
  "P (k, v) \<Longrightarrow> \<forall>e\<in>set al. P e \<Longrightarrow> \<forall>e\<in>set (AList.update k v al). P e"
  using set_update_subset [of k v al] by auto

lemma ball_merge:
  "\<forall>e\<in>set m. P e \<Longrightarrow> \<forall>e\<in>set tmp. P e \<Longrightarrow> \<forall>e\<in>set (AList.merge m tmp). P e"
  using set_merge_subset [of m tmp] by auto

lemma bracket_free_sep: "bracket_free ''_''" "bracket_free ''.''"
  by (simp_all add: bracket_free_def)

lemma entry_ok_Join:
  "segs_ok tag path \<Longrightarrow> entry_ok (Join tag ''_'', \<lparr>Path = Join path ''.'', Type = v, Optional = b\<rparr>)"
  by (simp add: segs_ok_def entry_ok_def paired_Join count_ph_Join bracket_free_sep)

lemma paired_ph: "paired ''[]''"
  by simp

lemma segs_ok_append_last:
  assumes "segs_ok tag path" "tag \<noteq> []" "path \<noteq> []"
  shows "segs_ok (append_last tag ''[]'') (append_last path ''[]'')"
proof -
  have *: "\<And>xs. xs \<noteq> [] \<Longrightarrow> \<forall>s\<in>set xs. paired s \<Longrightarrow>
      (\<forall>s\<in>set (append_last xs ''[]''). paired s)
      \<and> sum_list (map count_ph (append_last xs ''[]'')) = Suc (sum_list (map count_ph xs))"
  proof -
    fix xs :: "string list" assume ne: "xs \<noteq> []" and p: "\<forall>s\<in>set xs. paired s"
    then obtain ys y where xs: "xs = ys @ [y]" by (metis rev_exhaust)
    have "paired (y @ ''[]'')" using p xs by (intro paired_append) auto
    moreover have "count_ph (y @ ''[]'') = Suc (count_ph y)" using p xs by (simp add: count_ph_append)
    ultimately show "(\<forall>s\<in>set (append_last xs ''[]''). paired s)
      \<and> sum_list (map count_ph (append_last xs ''[]'')) = Suc (sum_list (map count_ph xs))"
      using p xs by (auto simp: append_last_def)
  qed
  show ?thesis using assms * [of tag] * [of path] by (simp add: segs_ok_def)
qed

lemma segs_ok_snoc:
  "segs_ok tag path \<Longrightarrow> bracket_free t \<Longrightarrow> bracket_free p \<Longrightarrow> segs_ok (tag @ [t]) (path @ [p])"
  by (auto simp: segs_ok_def paired_bracket_free count_ph_bracket_free)

lemma segs_ok_snoc_path:
  "segs_ok tag path \<Longrightarrow> bracket_free p \<Longrightarrow> segs_ok tag (path @ [p])"
  by (auto simp: segs_ok_def paired_bracket_free count_ph_bracket_free)

lemma collect_entries_ok:
  "collect sn d isPtr T tag path skip = Inr idx \<Longrightarrow> tokens_clean sn d T \<Longrightarrow> segs_ok tag path
     \<Longrightarrow> \<forall>e\<in>set idx. entry_ok e"
  "collect_fields sn d fs m tag path = Inr idx' \<Longrightarrow> fields_clean sn d fs \<Longrightarrow> segs_ok tag path
     \<Longrightarrow> \<forall>e\<in>set m. entry_ok e \<Longrightarrow> \<forall>e\<in>set idx'. entry_ok e"
proof (induction sn d isPtr T tag path skip and sn d fs m tag path arbitrary: idx and idx'
       rule: collect_collect_fields.induct)
  case (1 sn d isPtr v tag path skip)
  then show ?case by simp
next
  case (2 sn d isPtr k e0 tu tag path skip)
  show ?case
  proof (cases skip)
    case True
    with "2.prems" show ?thesis by (auto simp: Let_def split: if_splits sum.splits)
  next
    case False
    with "2.prems" have ne: "tag \<noteq> []" "path \<noteq> []" by (auto simp: Let_def split: if_splits)
    have ok': "segs_ok (append_last tag ''[]'') (append_last path ''[]'')"
      using "2.prems"(3) ne by (rule segs_ok_append_last)
    show ?thesis
    proof (cases "ptr_implements_tm (coll_elem e0)")
      case True
      with False ne "2.prems" have idx: "idx = AList.update (Join (append_last tag ''[]'') ''_'')
          \<lparr>Path = Join (append_last path ''[]'') ''.'', Type = coll_elem e0, Optional = isPtr\<rparr>
          [(Join tag ''_'', \<lparr>Path = Join path ''.'', Type = Coll k e0 tu, Optional = isPtr\<rparr>)]"
        by (auto simp: Let_def)
      show ?thesis unfolding idx
        by (rule ball_update) (simp_all add: entry_ok_Join ok' "2.prems"(3))
    next
      case ma: False
      with False ne "2.prems" obtain tmp where
        tmp: "collect sn d False (coll_elem e0) (append_last tag ''[]'') (append_last path ''[]'') False = Inr tmp"
        and idx: "idx = AList.merge [(Join tag ''_'', \<lparr>Path = Join path ''.'', Type = Coll k e0 tu, Optional = isPtr\<rparr>)] tmp"
        by (auto simp: Let_def split: sum.splits)
      have "\<forall>e\<in>set tmp. entry_ok e"
        using "2.IH"(1) [OF refl refl refl False _ refl refl refl ma tmp] False ne ma "2.prems"(2) ok'
        by simp
      then show ?thesis unfolding idx
        by (intro ball_merge) (simp_all add: entry_ok_Join "2.prems"(3))
    qed
  qed
next
  case (3 sn d isPtr fs tu tag path skip)
  then show ?case by (auto simp: entry_ok_Join)
next
  case (4 sn d isPtr n tu tag path skip)
  then show ?case by (auto simp: entry_ok_Join split: if_splits)
next
  case (5 sn d m tag path)
  then show ?case by simp
next
  case (6 sn d name env ty fs m tag path)
  show ?case
  proof (cases "IsExported name \<and> env \<noteq> ''--''")
    case False
    with "6.prems" "6.IH"(1,6) show ?thesis by (auto split: if_splits)
  next
    case True
    note ex = this
    show ?thesis
    proof (cases "env = ''-''")
      case True
      with ex "6.prems" obtain tmp where
        tmp: "collect sn d False ty tag (path @ [ToLower name]) True = Inr tmp"
        and rest: "collect_fields sn d fs (AList.merge m tmp) tag path = Inr idx'"
        by (auto split: sum.splits)
      have "segs_ok tag (path @ [ToLower name])"
        using "6.prems" ex True by (auto intro: segs_ok_snoc_path)
      then have "\<forall>e\<in>set tmp. entry_ok e"
        using "6.IH"(2) [OF _ _ True tmp] ex True "6.prems" by auto
      then have "\<forall>e\<in>set (AList.merge m tmp). entry_ok e"
        using "6.prems"(4) by (intro ball_merge)
      then show ?thesis
        using "6.IH"(3) [OF _ _ True tmp rest] ex "6.prems" by auto
    next
      case False
      with ex "6.prems" obtain tmp where
        tmp: "collect sn d False ty (tag @ [SnakeCase sn (env_name d name env)]) (path @ [ToLower name]) False = Inr tmp"
        and rest: "collect_fields sn d fs (AList.merge m tmp) tag path = Inr idx'"
        by (auto split: sum.splits)
      have "segs_ok (tag @ [SnakeCase sn (env_name d name env)]) (path @ [ToLower name])"
        using "6.prems" ex False by (auto intro: segs_ok_snoc)
      then have "\<forall>e\<in>set tmp. entry_ok e"
        using "6.IH"(4) [OF _ _ False tmp] ex False "6.prems" by auto
      then have "\<forall>e\<in>set (AList.merge m tmp). entry_ok e"
        using "6.prems"(4) by (intro ball_merge)
      then show ?thesis
        using "6.IH"(5) [OF _ _ False tmp rest] ex "6.prems" by auto
    qed
  qed
qed

lemma distinct_collect:
  "collect sn d isPtr T tag path skip = Inr idx \<Longrightarrow> distinct (map fst idx)"
  "collect_fields sn d fs m tag path = Inr idx' \<Longrightarrow> distinct (map fst m) \<Longrightarrow> distinct (map fst idx')"
proof (induction sn d isPtr T tag path skip and sn d fs m tag path arbitrary: idx and idx'
       rule: collect_collect_fields.induct)
  case (2 sn d isPtr k e0 tu tag path skip)
  then show ?case
    by (auto simp: Let_def distinct_update distinct_merge split: if_splits sum.splits)
next
  case (6 sn d name env ty fs m tag path)
  then show ?case
    by (auto simp: distinct_merge split: if_splits sum.splits)
qed (auto split: if_splits)

lemma ReplaceFirst_noph:
  "noph pre \<Longrightarrow> ReplaceFirst (pre @ s) ''[]'' new = pre @ ReplaceFirst s ''[]'' new"
  by (induction pre rule: noph.induct) (auto simp: prefix_def)

lemma noph_bracket_free: "bracket_free s \<Longrightarrow> noph s"
  by (induction s rule: noph.induct) (auto simp: bracket_free_def)

lemma ReplaceFirst_bracket_free: "bracket_free s \<Longrightarrow> ReplaceFirst s ''[]'' new = s"
  by (induction s) (auto simp: bracket_free_def prefix_def)

lemma noph_append: "noph a \<Longrightarrow> noph b \<Longrightarrow> noph (a @ b)"
proof (induction a rule: noph.induct)
  case 1 then show ?case by simp
next
  case (2 a) then show ?case by (cases b) auto
next
  case (3 a b s) then show ?case by auto
qed

lemma noph_content:
  assumes "CHR '']'' \<notin> set c" "c \<noteq> []" "last c \<noteq> CHR ''[''"
  shows "noph (''['' @ c @ '']'')"
proof -
  have "noph (c @ '']'')" using assms
  proof (induction c rule: noph.induct)
    case 1 then show ?case by simp
  next
    case (2 a) then show ?case by simp
  next
    case (3 a b s) then show ?case by (auto split: if_splits)
  qed
  moreover obtain x xs where "c = x # xs" using assms(2) by (cases c) auto
  ultimately show ?thesis using assms(1) by auto
qed

lemma paired_decompose:
  "paired s \<Longrightarrow> bracket_free s \<or> (\<exists>mid rest. s = mid @ ''[]'' @ rest \<and> bracket_free mid \<and> paired rest)"
proof (induction s rule: paired.induct)
  case 1 then show ?case by (simp add: bracket_free_def)
next
  case (2 a) then show ?case by (auto simp: bracket_free_def)
next
  case (3 a b cs)
  show ?case
  proof (cases "a = CHR ''[''")
    case True
    with 3 have "a # b # cs = [] @ ''[]'' @ cs \<and> bracket_free [] \<and> paired cs"
      by (auto simp: bracket_free_def)
    then show ?thesis by blast
  next
    case False
    with 3 have a: "a \<noteq> CHR '']''" and p: "paired (b # cs)" by auto
    from 3(2) [OF False] p consider "bracket_free (b # cs)"
      | mid rest where "b # cs = mid @ ''[]'' @ rest" "bracket_free mid" "paired rest" by blast
    then show ?thesis
    proof cases
      case 1 then show ?thesis using False a by (auto simp: bracket_free_def)
    next
      case 2
      then have "a # b # cs = (a # mid) @ ''[]'' @ rest \<and> bracket_free (a # mid) \<and> paired rest"
        using False a by (auto simp: bracket_free_def)
      then show ?thesis by blast
    qed
  qed
qed

lemma fill_bracket_free: "bracket_free s \<Longrightarrow> fill s cs = s"
  by (induction s cs rule: fill.induct) (auto simp: bracket_free_def)

lemma fill_mid:
  "bracket_free mid \<Longrightarrow>
   fill (mid @ CHR ''['' # CHR '']'' # rest) (c # cs) = mid @ CHR ''['' # c @ CHR '']'' # fill rest cs"
proof (induction mid)
  case Nil then show ?case by simp
next
  case (Cons a mid)
  then show ?case by (cases "mid @ CHR ''['' # CHR '']'' # rest") (auto simp: bracket_free_def)
qed

lemma foldl_step_fill:
  "noph pre \<Longrightarrow> paired rest \<Longrightarrow> \<forall>c\<in>set cs. CHR '']'' \<notin> set c
   \<Longrightarrow> \<forall>c\<in>set (butlast cs). c \<noteq> [] \<and> last c \<noteq> CHR ''[''
   \<Longrightarrow> foldl step (pre @ rest) cs = pre @ fill rest cs"
proof (induction cs arbitrary: pre rest)
  case Nil then show ?case by simp
next
  case (Cons c cs)
  from paired_decompose [OF Cons.prems(2)] consider "bracket_free rest"
    | mid rest' where "rest = mid @ ''[]'' @ rest'" "bracket_free mid" "paired rest'" by blast
  then show ?case
  proof cases
    case 1
    have "step (pre @ rest) c = pre @ rest"
      by (simp add: ReplaceFirst_noph [OF Cons.prems(1)] ReplaceFirst_bracket_free [OF 1])
    moreover have "foldl step (pre @ rest) cs = pre @ fill rest cs"
    proof (cases cs)
      case Nil then show ?thesis by simp
    next
      case (Cons c' cs')
      show ?thesis using Cons.IH [OF Cons.prems(1,2)] Cons.prems(3,4) Cons by auto
    qed
    ultimately show ?thesis by (simp add: fill_bracket_free [OF 1])
  next
    case 2
    have np: "noph (pre @ mid)" using Cons.prems(1) noph_bracket_free [OF 2(2)] by (rule noph_append)
    have st: "step (pre @ rest) c = (pre @ mid @ ''['' @ c @ '']'') @ rest'"
      using ReplaceFirst_noph [OF np, of "''[]'' @ rest'"] by (simp add: 2(1))
    show ?thesis
    proof (cases cs)
      case Nil
      then show ?thesis using st by (simp add: 2(1) fill_mid [OF 2(2)])
    next
      case (Cons c' cs')
      then have safe: "CHR '']'' \<notin> set c" "c \<noteq> []" "last c \<noteq> CHR ''[''"
        using Cons.prems(3,4) by auto
      have "noph (pre @ mid @ ''['' @ c @ '']'')"
        using np noph_content [OF safe] noph_append [of "pre @ mid" "''['' @ c @ '']''"] by simp
      then have "foldl step ((pre @ mid @ ''['' @ c @ '']'') @ rest') cs
                 = (pre @ mid @ ''['' @ c @ '']'') @ fill rest' cs"
        using Cons.IH [of "pre @ mid @ ''['' @ c @ '']''" rest'] 2(3) Cons.prems(3,4) Cons by auto
      then show ?thesis using st by (simp add: 2(1) fill_mid [OF 2(2)])
    qed
  qed
qed

lemma dropWhile_content:
  "CHR '']'' \<notin> set c \<Longrightarrow> dropWhile (\<lambda>x. x \<noteq> CHR '']'') (c @ CHR '']'' # r) = CHR '']'' # r"
  by (induction c) auto

lemma takeWhile_content:
  "CHR '']'' \<notin> set c \<Longrightarrow> takeWhile (\<lambda>x. x \<noteq> CHR '']'') (c @ CHR '']'' # r) = c"
  by (induction c) auto

lemma braces_replace_paired: "paired s \<Longrightarrow> braces_replace s = s"
  by (induction s rule: paired.induct) auto

lemma braces_submatches_paired: "paired s \<Longrightarrow> braces_submatches s = replicate (count_ph s) []"
  by (induction s rule: paired.induct) auto

lemma braces_replace_fill:
  "paired k \<Longrightarrow> \<forall>c\<in>set cs. CHR '']'' \<notin> set c \<Longrightarrow> braces_replace (fill k cs) = k"
proof (induction k cs rule: fill.induct)
  case (1 s) then show ?case by (simp add: braces_replace_paired)
next
  case (4 a b s c cs)
  then show ?case by (auto simp: dropWhile_content split: if_splits)
qed auto

lemma braces_submatches_fill:
  "paired k \<Longrightarrow> \<forall>c\<in>set cs. CHR '']'' \<notin> set c \<Longrightarrow> length cs = count_ph k
   \<Longrightarrow> braces_submatches (fill k cs) = cs"
proof (induction k cs rule: fill.induct)
  case (1 s) then show ?case by (simp add: braces_submatches_paired)
next
  case (4 a b s c cs)
  then show ?case by (auto simp: dropWhile_content takeWhile_content split: if_splits)
qed auto

lemma foldl_step_empty: "foldl step p (replicate n []) = p"
proof -
  have "ReplaceFirst q ''[]'' ''[]'' = q" for q
    by (induction q) (auto simp: prefix_def)
  then show ?thesis by (induction n) auto
qed

lemma Find_of_entry:
  assumes "distinct (map fst idx)" "(k, it) \<in> set idx" "entry_ok (k, it)"
  shows "Find idx k = (Path it, True)"
    and "\<forall>c\<in>set cs. CHR '']'' \<notin> set c \<Longrightarrow> length cs = count_ph k
         \<Longrightarrow> \<forall>c\<in>set (butlast cs). c \<noteq> [] \<and> last c \<noteq> CHR ''[''
         \<Longrightarrow> Find idx (fill k cs) = (fill (Path it) cs, True)"
proof -
  have m: "map_of idx k = Some it" using assms(1,2) by simp
  have pk: "paired k" and pp: "paired (Path it)" using assms(3) by (simp_all add: entry_ok_def)
  show "Find idx k = (Path it, True)"
    using foldl_step_empty [of "Path it" "count_ph k"]
    by (simp add: Find_def braces_replace_paired [OF pk] braces_submatches_paired [OF pk] m)
  assume cs: "\<forall>c\<in>set cs. CHR '']'' \<notin> set c" "length cs = count_ph k"
     "\<forall>c\<in>set (butlast cs). c \<noteq> [] \<and> last c \<noteq> CHR ''[''"
  have "foldl step ([] @ Path it) cs = [] @ fill (Path it) cs"
    using pp cs(1,3) by (intro foldl_step_fill) simp_all
  then show "Find idx (fill k cs) = (fill (Path it) cs, True)"
    by (simp add: Find_def braces_replace_fill [OF pk cs(1)] braces_submatches_fill [OF pk cs(1,2)] m)
qed

lemma segs_ok_Nil: "segs_ok [] []"
  by (simp add: segs_ok_def)

lemma New_entries_ok:
  assumes "New sn T d = Inr idx" "tokens_clean sn d (unwrap T)"
  shows "\<forall>e\<in>set idx. entry_ok e" and "distinct (map fst idx)"
proof -
  show "\<forall>e\<in>set idx. entry_ok e"
  proof (cases "unwrap T")
    case (Struct fs tu)
    then have "collect sn d False (Struct fs tu) [] [] False = Inr idx"
      using assms(1) by (simp add: New_def)
    then show ?thesis using collect_entries_ok(1) [OF _ _ segs_ok_Nil] assms(2) Struct by metis
  qed (use assms(1) in \<open>auto simp: New_def\<close>)
  show "distinct (map fst idx)"
  proof (cases "unwrap T")
    case (Struct fs tu)
    then have "collect sn d False (Struct fs tu) [] [] False = Inr idx"
      using assms(1) by (simp add: New_def)
    then show ?thesis by (rule distinct_collect(1))
  qed (use assms(1) in \<open>auto simp: New_def\<close>)
qed

lemma merge_eq_Nil: "AList.merge m tmp = [] \<longleftrightarrow> m = [] \<and> tmp = []"
  using dom_merge [of m tmp] by (metis Un_empty image_is_empty set_empty)

lemma append_last_ne: "append_last xs s \<noteq> []"
  by (simp add: append_last_def)

lemma collect_conflict:
  "skip \<or> (tag \<noteq> [] \<and> path \<noteq> []) \<Longrightarrow>
     (conflict skip T \<longrightarrow> (\<exists>p. collect sn d isPtr T tag path skip = Inl (CantSkip p)))
     \<and> (\<not> conflict skip T \<longrightarrow>
          (\<exists>idx. collect sn d isPtr T tag path skip = Inr idx
                  \<and> (idx \<noteq> [] \<longleftrightarrow> (\<not> skip \<or> yields_flat T))))"
  "(fields_conflict fs \<longrightarrow> (\<exists>p. collect_fields sn d fs m tag path = Inl (CantSkip p)))
     \<and> (\<not> fields_conflict fs \<longrightarrow>
          (\<exists>idx. collect_fields sn d fs m tag path = Inr idx
                  \<and> (idx \<noteq> [] \<longleftrightarrow> (m \<noteq> [] \<or> fields_yield fs))))"
proof (induction sn d isPtr T tag path skip and sn d fs m tag path
       rule: collect_collect_fields.induct)
  case (1 sn d isPtr v tag path skip)
  then show ?case by simp
next
  case (2 sn d isPtr k e0 tu tag path skip)
  let ?e = "coll_elem e0"
  show ?case
  proof (cases "ptr_implements_tm ?e")
    case True
    then show ?thesis using "2.prems" by (auto simp: Let_def)
  next
    case ma: False
    show ?thesis
    proof (cases skip)
      case True
      from "2.IH"(2) [OF refl refl refl _ ma] True
      have IH: "(conflict True ?e \<longrightarrow> (\<exists>p. collect sn d False ?e tag path True = Inl (CantSkip p)))
        \<and> (\<not> conflict True ?e \<longrightarrow>
          (\<exists>idx. collect sn d False ?e tag path True = Inr idx \<and> (idx \<noteq> [] \<longleftrightarrow> yields_flat ?e)))"
        by simp
      show ?thesis
      proof (cases "conflict True ?e")
        case c: True
        with IH obtain p where "collect sn d False ?e tag path True = Inl (CantSkip p)" by blast
        then show ?thesis using True ma c by (auto simp: Let_def)
      next
        case c: False
        with IH obtain tmp where "collect sn d False ?e tag path True = Inr tmp"
          "tmp \<noteq> [] \<longleftrightarrow> yields_flat ?e" by blast
        then show ?thesis using True ma c by (auto simp: Let_def)
      qed
    next
      case False
      with "2.prems" have ne: "tag \<noteq> []" "path \<noteq> []" by auto
      from "2.IH"(1) [OF refl refl refl False _ refl refl refl ma] ne append_last_ne
      have IH: "(conflict False ?e \<longrightarrow> (\<exists>p. collect sn d False ?e (append_last tag ''[]'')
                    (append_last path ''[]'') False = Inl (CantSkip p)))
        \<and> (\<not> conflict False ?e \<longrightarrow>
          (\<exists>idx. collect sn d False ?e (append_last tag ''[]'') (append_last path ''[]'') False = Inr idx))"
        by auto
      show ?thesis
      proof (cases "conflict False ?e")
        case c: True
        with IH obtain p where "collect sn d False ?e (append_last tag ''[]'')
                    (append_last path ''[]'') False = Inl (CantSkip p)" by blast
        then show ?thesis using False ma c ne by (auto simp: Let_def)
      next
        case c: False
        with IH obtain tmp where "collect sn d False ?e (append_last tag ''[]'')
                    (append_last path ''[]'') False = Inr tmp" by blast
        then show ?thesis using False ma c ne by (auto simp: Let_def merge_eq_Nil)
      qed
    qed
  qed
next
  case (3 sn d isPtr fs tu tag path skip)
  show ?case using "3.IH" "3.prems" by (cases skip) auto
next
  case (4 sn d isPtr n tu tag path skip)
  then show ?case by auto
next
  case (5 sn d m tag path)
  then show ?case by simp
next
  case (6 sn d name env ty fs m tag path)
  show ?case
  proof (cases "IsExported name \<and> env \<noteq> ''--''")
    case False
    then show ?thesis using "6.IH"(1,6) by auto
  next
    case ex: True
    show ?thesis
    proof (cases "env = ''-''")
      case True
      from "6.IH"(2) [OF _ _ True] ex
      have IH: "(conflict True ty \<longrightarrow> (\<exists>p. collect sn d False ty tag (path @ [ToLower name]) True = Inl (CantSkip p)))
        \<and> (\<not> conflict True ty \<longrightarrow>
          (\<exists>idx. collect sn d False ty tag (path @ [ToLower name]) True = Inr idx \<and> (idx \<noteq> [] \<longleftrightarrow> yields_flat ty)))"
        by simp
      show ?thesis
      proof (cases "conflict True ty")
        case c: True
        with IH obtain p where "collect sn d False ty tag (path @ [ToLower name]) True = Inl (CantSkip p)"
          by blast
        then show ?thesis using ex True c by auto
      next
        case c: False
        with IH obtain tmp where tmp: "collect sn d False ty tag (path @ [ToLower name]) True = Inr tmp"
          "tmp \<noteq> [] \<longleftrightarrow> yields_flat ty" by blast
        from "6.IH"(3) [OF _ _ True tmp(1)] ex tmp show ?thesis
          using True c by (auto simp: merge_eq_Nil)
      qed
    next
      case False
      let ?tag = "tag @ [SnakeCase sn (env_name d name env)]"
      from "6.IH"(4) [OF _ _ False] ex
      have IH: "(conflict False ty \<longrightarrow> (\<exists>p. collect sn d False ty ?tag (path @ [ToLower name]) False = Inl (CantSkip p)))
        \<and> (\<not> conflict False ty \<longrightarrow>
          (\<exists>idx. collect sn d False ty ?tag (path @ [ToLower name]) False = Inr idx \<and> idx \<noteq> []))"
        by simp
      show ?thesis
      proof (cases "conflict False ty")
        case c: True
        with IH obtain p where "collect sn d False ty ?tag (path @ [ToLower name]) False = Inl (CantSkip p)"
          by blast
        then show ?thesis using ex False c by auto
      next
        case c: False
        with IH obtain tmp where tmp: "collect sn d False ty ?tag (path @ [ToLower name]) False = Inr tmp"
          "tmp \<noteq> []" by blast
        from "6.IH"(5) [OF _ _ False tmp(1)] ex tmp show ?thesis
          using False c by (auto simp: merge_eq_Nil)
      qed
    qed
  qed
qed

section \<open>Claims about the index builder and the key resolver\<close>

lemma tokens_clean_unwrap: "tokens_clean sn d (unwrap T) = tokens_clean sn d T"
  by (induction T rule: unwrap.induct) auto

lemma New_settings: "New (\<lambda>s. s) settings_type [] = Inr settings_index"
  unfolding settings_type_def settings_index_def string_type_def by code_simp

lemma tokens_clean_settings: "tokens_clean (\<lambda>s. s) [] settings_type"
  unfolding settings_type_def string_type_def by code_simp

text \<open>
  C9 (amended). For every index that \<open>New\<close> builds from a record type whose key tokens and
  lower-cased field names contain no bracket character, every entry has as many \<open>[]\<close>
  placeholders in its key as in its path.
\<close>

theorem C9_placeholders_agree:
  assumes "New sn T d = Inr idx" and "tokens_clean sn d T" and "(k, it) \<in> set idx"
  shows "count_ph k = count_ph (Path it)"
proof -
  have "tokens_clean sn d (unwrap T)" using assms(2) by (simp add: tokens_clean_unwrap)
  from New_entries_ok(1) [OF assms(1) this] assms(3) have "entry_ok (k, it)" by blast
  then show ?thesis by (simp add: entry_ok_def)
qed

theorem C9_placeholders_agree_witness:
  "New (\<lambda>s. s) settings_type [] = Inr settings_index
   \<and> tokens_clean (\<lambda>s. s) [] settings_type
   \<and> (''SETTINGS[]_TAGS[]'', \<lparr>Path = ''settings[].tags[]'', Type = string_type, Optional = False\<rparr>)
        \<in> set settings_index
   \<and> count_ph ''SETTINGS[]_TAGS[]'' = 2
   \<and> count_ph (Path \<lparr>Path = ''settings[].tags[]'', Type = string_type, Optional = False\<rparr>) = 2"
proof -
  have m: "(''SETTINGS[]_TAGS[]'', \<lparr>Path = ''settings[].tags[]'', Type = string_type, Optional = False\<rparr>)
        \<in> set settings_index"
    by (simp add: settings_index_def)
  have c: "count_ph ''SETTINGS[]_TAGS[]'' = 2" by simp
  from C9_placeholders_agree [OF New_settings tokens_clean_settings m] c New_settings
    tokens_clean_settings m
  show ?thesis by simp
qed

text \<open>
  C9 as stated fails: a field tagged \<open>env:"A[]"\<close> gets the key \<open>A[]\<close>, with one placeholder,
  and the path \<open>f\<close>, with none.
\<close>

theorem C9_counterexample:
  "New (\<lambda>s. s) (tagged_type ''A[]'') []
     = Inr [(''A[]'', \<lparr>Path = ''f'', Type = string_type, Optional = False\<rparr>)]
   \<and> count_ph ''A[]'' = 1
   \<and> count_ph (Path \<lparr>Path = ''f'', Type = string_type, Optional = False\<rparr>) = 0"
proof -
  have "New (\<lambda>s. s) (tagged_type ''A[]'') []
     = Inr [(''A[]'', \<lparr>Path = ''f'', Type = string_type, Optional = False\<rparr>)]"
    unfolding tagged_type_def string_type_def by code_simp
  then show ?thesis by simp
qed

text \<open>
  C3 (amended). For every index that \<open>New\<close> builds from a record type whose key tokens and
  lower-cased field names contain no bracket character, and every entry of it: \<open>Find\<close> on
  the key returns the recorded path unchanged; and \<open>Find\<close> on the key with one content
  inserted into each placeholder returns the path with the contents inserted into its
  placeholders from the left, provided that no content contains \<open>]\<close> and that every
  content but the last is non-empty and does not end with \<open>[\<close>.
\<close>

theorem C3_Find_substitutes:
  assumes "New sn T d = Inr idx" and "tokens_clean sn d T" and "(k, it) \<in> set idx"
  shows "Find idx k = (Path it, True)
         \<and> ((\<forall>c\<in>set cs. CHR '']'' \<notin> set c) \<and> length cs = count_ph k
              \<and> (\<forall>c\<in>set (butlast cs). c \<noteq> [] \<and> last c \<noteq> CHR ''['')
            \<longrightarrow> Find idx (fill k cs) = (fill (Path it) cs, True))"
proof -
  have tc: "tokens_clean sn d (unwrap T)" using assms(2) by (simp add: tokens_clean_unwrap)
  have ok: "entry_ok (k, it)" using New_entries_ok(1) [OF assms(1) tc] assms(3) by blast
  have di: "distinct (map fst idx)" by (rule New_entries_ok(2) [OF assms(1) tc])
  show ?thesis using Find_of_entry [OF di assms(3) ok] by blast
qed

theorem C3_Find_substitutes_witness:
  "New (\<lambda>s. s) settings_type [] = Inr settings_index
   \<and> tokens_clean (\<lambda>s. s) [] settings_type
   \<and> (''SETTINGS[]_TAGS[]'', \<lparr>Path = ''settings[].tags[]'', Type = string_type, Optional = False\<rparr>)
        \<in> set settings_index
   \<and> Find settings_index ''SETTINGS[]_TAGS[]'' = (''settings[].tags[]'', True)
   \<and> Find settings_index ''SETTINGS[1]_TAGS[abc]'' = (''settings[1].tags[abc]'', True)"
proof -
  have m: "(''SETTINGS[]_TAGS[]'', \<lparr>Path = ''settings[].tags[]'', Type = string_type, Optional = False\<rparr>)
        \<in> set settings_index"
    by (simp add: settings_index_def)
  from C3_Find_substitutes [OF New_settings tokens_clean_settings m, of "[''1'', ''abc'']"]
    New_settings tokens_clean_settings m
  show ?thesis by simp
qed

text \<open>
  C3 as stated fails on a record type with no collection: the key of a field tagged
  \<open>env:"A[0]"\<close> is \<open>A[0]\<close>, and \<open>Find\<close> looks up \<open>A[]\<close>, which is no key of the index.
\<close>

theorem C3_counterexample:
  "New (\<lambda>s. s) (tagged_type ''A[0]'') []
     = Inr [(''A[0]'', \<lparr>Path = ''f'', Type = string_type, Optional = False\<rparr>)]
   \<and> Find [(''A[0]'', \<lparr>Path = ''f'', Type = string_type, Optional = False\<rparr>)] ''A[0]'' = ([], False)"
proof -
  have "New (\<lambda>s. s) (tagged_type ''A[0]'') []
     = Inr [(''A[0]'', \<lparr>Path = ''f'', Type = string_type, Optional = False\<rparr>)]"
    unfolding tagged_type_def string_type_def by code_simp
  moreover have "Find [(''A[0]'', \<lparr>Path = ''f'', Type = string_type, Optional = False\<rparr>)] ''A[0]''
     = ([], False)"
    by (simp add: Find_def)
  ultimately show ?thesis by simp
qed

text \<open>
  C4 (amended). \<open>New\<close> fails exactly when the walk reaches a flattened collection (a field
  tagged \<open>env:"-"\<close> whose type, after pointers, is a slice, array or map, or the element
  of such a collection) whose element type is no text unmarshaler and whose flattened
  element subtree contributes at least one entry; a flattened collection whose elements
  contribute no entry is passed over without error. The error is always the
  flatten-through-collection error.
\<close>

theorem C4_New_fails_iff:
  "((\<exists>err. New sn T d = Inl err) \<longleftrightarrow> flatten_conflict T)
   \<and> (\<forall>err. New sn T d = Inl err \<longrightarrow> (\<exists>p. err = CantSkip p))"
proof (cases "unwrap T")
  case (Struct fs tu)
  have eq: "New sn T d = collect_fields sn d fs [] [] []"
    by (simp add: New_def Struct)
  from collect_conflict(2) [of fs sn d "[]" "[]" "[]"] show ?thesis
    unfolding eq flatten_conflict_def Struct by (cases "fields_conflict fs") auto
qed (auto simp: New_def flatten_conflict_def)

theorem C4_New_fails_iff_witness:
  "flatten_conflict nested_skip_type
   \<and> (\<exists>p. New (\<lambda>s. s) nested_skip_type [] = Inl (CantSkip p))
   \<and> New (\<lambda>s. s) nested_skip_type [] = Inl (CantSkip ''nested'')"
proof -
  have fc: "flatten_conflict nested_skip_type"
    unfolding nested_skip_type_def string_type_def by code_simp
  have ev: "New (\<lambda>s. s) nested_skip_type [] = Inl (CantSkip ''nested'')"
    unfolding nested_skip_type_def string_type_def by code_simp
  from C4_New_fails_iff [of "\<lambda>s. s" nested_skip_type "[]"] fc
  have "\<exists>p. New (\<lambda>s. s) nested_skip_type [] = Inl (CantSkip p)" by metis
  with fc ev show ?thesis by simp
qed

text \<open>
  C4 as stated fails: a field \<open>Hidden []string\<close> tagged \<open>env:"-"\<close> is a slice tagged
  exclude-self, and \<open>New\<close> returns the empty index without error.
\<close>

theorem C4_counterexample:
  "New (\<lambda>s. s) hidden_slice_type [] = Inr []"
  unfolding hidden_slice_type_def string_type_def by code_simp

text \<open>
  C10. \<open>Find\<close> replaces the first \<open>[]\<close> of the whole path again for every content. With the
  key \<open>ROUTE[][7]\<close> and an entry \<open>ROUTE[][]\<close> whose path \<open>route[]\<close> has one placeholder, the
  empty first content leaves the placeholder in place and the surplus content \<open>7\<close> is
  not dropped: it fills the placeholder.
\<close>

theorem C10_surplus_content_used:
  "Find [(''ROUTE[][]'', \<lparr>Path = ''route[]'', Type = string_type, Optional = False\<rparr>)] ''ROUTE[][7]''
     = (''route[7]'', True)"
  by (simp add: Find_def)

section \<open>Claims about the flag layer\<close>

lemma SetFlags_loop_filter:
  "SetFlags_loop setter get val xs
     = SetFlags_loop setter get val (filter (\<lambda>(k, v). Changed (f_flag v)) xs)"
  by (induction xs arbitrary: val) (auto split: sum.splits prod.splits option.splits)

lemma SetFlags_loop_drop:
  "\<not> Changed (f_flag v) \<Longrightarrow>
   SetFlags_loop setter get val (xs @ (k, v) # ys) = SetFlags_loop setter get val (xs @ ys)"
  using SetFlags_loop_filter [of setter get val "xs @ (k, v) # ys"]
        SetFlags_loop_filter [of setter get val "xs @ ys"] by simp

text \<open>
  C7. \<open>SetFlags\<close> does what it does on the flags whose \<open>Changed\<close> is true alone: a bound flag
  with \<open>Changed\<close> false can be removed from the list without any effect on the error or on
  the target, whatever its value is.
\<close>

theorem C7_unchanged_flags_not_applied:
  "SetFlags setter get val f
     = SetFlags setter get val (f\<lparr>fl_flags := filter (\<lambda>(k, v). Changed (f_flag v)) (fl_flags f)\<rparr>)
   \<and> (\<not> Changed (f_flag v) \<longrightarrow>
        SetFlags setter get val (f\<lparr>fl_flags := xs @ (k, v) # ys\<rparr>)
          = SetFlags setter get val (f\<lparr>fl_flags := xs @ ys\<rparr>))"
  using SetFlags_loop_filter [of setter get val "fl_flags f"] SetFlags_loop_drop [of v setter get val xs k ys]
  by (simp add: SetFlags_def)

theorem C7_unchanged_flags_not_applied_witness:
  "\<not> Changed (f_flag (port_flag False ''1111''))
   \<and> SetFlags kv_set no_get [(''port'', AString ''9999'')]
        \<lparr>fl_flags = [(''host'', port_flag True ''h'')] @ (''port'', port_flag False ''1111'') # [], fl_dict = []\<rparr>
      = SetFlags kv_set no_get [(''port'', AString ''9999'')]
        \<lparr>fl_flags = [(''host'', port_flag True ''h'')] @ [], fl_dict = []\<rparr>
   \<and> SetFlags kv_set no_get [(''port'', AString ''9999'')]
        \<lparr>fl_flags = [(''host'', port_flag True ''h''), (''port'', port_flag False ''1111'')], fl_dict = []\<rparr>
      = (None, [(''port'', AString ''9999''), (''host'', AString ''h'')])"
proof -
  have h: "\<not> Changed (f_flag (port_flag False ''1111''))" by (simp add: port_flag_def)
  have ev: "SetFlags kv_set no_get [(''port'', AString ''9999'')]
        \<lparr>fl_flags = [(''host'', port_flag True ''h'')], fl_dict = []\<rparr>
      = (None, [(''port'', AString ''9999''), (''host'', AString ''h'')])"
    by (simp add: SetFlags_def port_flag_def getValue_def typed_kinds_def kv_set_def)
  from C7_unchanged_flags_not_applied [of kv_set no_get "[(''port'', AString ''9999'')]"
      "\<lparr>fl_flags = [], fl_dict = []\<rparr>" "port_flag False ''1111''" "[(''host'', port_flag True ''h'')]" "''port''" "[]"] h ev
  show ?thesis by simp
qed

lemma BindFlag_error_iff:
  "fst (BindFlag f fs' target flag') \<noteq> None \<longleftrightarrow> target = [] \<or> flag' = None"
  by (auto simp: BindFlag_def split: option.splits)

lemma BindCmdFlag_error_iff:
  "fst (BindCmdFlag lk f cmd target source) \<noteq> None \<longleftrightarrow>
     target = [] \<or> cmd = None
     \<or> (\<exists>c. cmd = Some c \<and> lk (PersistentFlags c) source = None \<and> lk (LocalFlags c) source = None)
     \<or> (fl_dict f \<noteq> [] \<and> \<not> snd (Find (fl_dict f) target) \<and> \<not> PathExists (fl_dict f) (ToLower target))"
  by (cases "Find (fl_dict f) target")
     (auto simp: BindCmdFlag_def split: option.splits bool.splits)

text \<open>
  C8. \<open>BindCmdFlag\<close> fails exactly in the cases of the claim (\<open>BindCmdFlag_error_iff\<close>), but
  \<open>BindFlag\<close> fails only on an empty target or a nil flag (\<open>BindFlag_error_iff\<close>): with a
  non-empty index and the target \<open>Port\<close>, which is neither a key nor, lower-cased, a path
  of the index, \<open>BindFlag\<close> binds \<open>port\<close> where \<open>BindCmdFlag\<close> returns "target field not found".
\<close>

theorem C8_BindFlag_skips_index_check:
  "host_index \<noteq> []
   \<and> \<not> snd (Find host_index ''Port'') \<and> \<not> PathExists host_index (ToLower ''Port'')
   \<and> BindFlag (NewFlagList host_index) () ''Port'' (Some (f_flag (port_flag True ''1'')))
       = (None, \<lparr>fl_flags = [(''port'', port_flag True ''1'')], fl_dict = host_index\<rparr>)
   \<and> fst (BindCmdFlag (\<lambda>u s. Some (f_flag (port_flag True ''1''))) (NewFlagList host_index)
            (Some \<lparr>Use = [], PersistentFlags = (), LocalFlags = ()\<rparr>) ''Port'' ''port'')
       = Some (TargetFieldNotFound ''Port'')"
  by (simp add: host_index_def Find_def PathExists_def BindFlag_def BindCmdFlag_def NewFlagList_def
      port_flag_def ToLower_def to_lower_char_def upper_letters_def lower_letters_def string_type_def)

section \<open>Claims about the environment layer\<close>

lemma scan_step:
  "scan_environ o' (x # env) m =
     (case env_key o' x of
        None \<Rightarrow> scan_environ o' env m
      | Some k \<Rightarrow>
          (if snd (Find (env_Index o') k)
           then scan_environ o' env
                  (AList.update (fst (Find (env_Index o') k))
                     (Trim (drop (the (IndexEq x) + 1) x) value_cutset) m)
           else if \<not> env_Strict o' then scan_environ o' env m
           else Inl (NotFoundError k)))"
  by (auto simp: env_key_def Let_def split: option.splits prod.splits bool.splits)

lemma scan_skip_unresolved:
  "\<not> env_Strict o' \<Longrightarrow> unresolved o' v \<Longrightarrow>
   scan_environ o' (xs @ v # ys) m = scan_environ o' (xs @ ys) m"
proof (induction xs arbitrary: m)
  case Nil
  then show ?case
    by (auto simp: scan_step unresolved_def simp del: scan_environ.simps split: option.splits)
next
  case (Cons x xs)
  then show ?case
    by (auto simp: scan_step simp del: scan_environ.simps split: option.splits)
qed

lemma scan_strict_first:
  "env_Strict o' \<Longrightarrow> \<forall>v\<in>set xs. \<not> unresolved o' v \<Longrightarrow> env_key o' v = Some k \<Longrightarrow> unresolved o' v
   \<Longrightarrow> scan_environ o' (xs @ v # ys) m = Inl (NotFoundError k)"
proof (induction xs arbitrary: m)
  case Nil
  then show ?case
    by (auto simp: scan_step unresolved_def simp del: scan_environ.simps split: option.splits)
next
  case (Cons x xs)
  then show ?case
    by (auto simp: scan_step unresolved_def simp del: scan_environ.simps split: option.splits)
qed

lemma first_unresolved:
  assumes "\<exists>v\<in>set environ. unresolved o' v"
  obtains xs v ys where "environ = xs @ v # ys" "\<forall>x\<in>set xs. \<not> unresolved o' x" "unresolved o' v"
    "hd (filter (unresolved o') environ) = v"
proof -
  from assms obtain xs v ys where s: "environ = xs @ v # ys" "unresolved o' v"
    "\<forall>x\<in>set xs. \<not> unresolved o' x"
    using split_list_first_prop [of environ "unresolved o'"] by blast
  then have "filter (unresolved o') environ = v # filter (unresolved o') ys" by simp
  then have "hd (filter (unresolved o') environ) = v" by simp
  with s that show ?thesis by blast
qed

text \<open>
  C5. Let the options of \<open>Set\<close> resolve to \<open>o'\<close> (the index is there). In strict mode, if
  some entry of the environment survives the prefix filter and does not resolve, \<open>Set\<close>
  returns \<open>lookup.NotFoundError\<close> naming the key of the first such entry, and the target
  is as it was. In non-strict mode such an entry can be removed from the environment
  without any effect on the error or on the target.
\<close>

theorem C5_unresolved_key:
  assumes "env_options sn T options = Inr o'"
  shows "(env_Strict o' \<and> (\<exists>v\<in>set environ. unresolved o' v) \<longrightarrow>
           (\<exists>k. env_key o' (hd (filter (unresolved o') environ)) = Some k
                \<and> env_Set sn environ setter T val options = (Some (NotFoundError k), val)))
         \<and> (\<not> env_Strict o' \<and> unresolved o' v \<longrightarrow>
              env_Set sn (xs @ v # ys) setter T val options
                = env_Set sn (xs @ ys) setter T val options)"
proof (intro conjI impI)
  assume a: "env_Strict o' \<and> (\<exists>v\<in>set environ. unresolved o' v)"
  then obtain xs v ys where s: "environ = xs @ v # ys" "\<forall>x\<in>set xs. \<not> unresolved o' x"
    "unresolved o' v" "hd (filter (unresolved o') environ) = v"
    using first_unresolved [of environ o'] by blast
  from s(3) obtain k where k: "env_key o' v = Some k"
    by (auto simp: unresolved_def split: option.splits)
  have "scan_environ o' environ [] = Inl (NotFoundError k)"
    unfolding s(1) using a s(2) k s(3) by (intro scan_strict_first) auto
  then show "\<exists>k. env_key o' (hd (filter (unresolved o') environ)) = Some k
                \<and> env_Set sn environ setter T val options = (Some (NotFoundError k), val)"
    using k s(4) assms by (simp add: env_Set_def)
next
  assume "\<not> env_Strict o' \<and> unresolved o' v"
  then show "env_Set sn (xs @ v # ys) setter T val options = env_Set sn (xs @ ys) setter T val options"
    using assms by (simp add: env_Set_def scan_skip_unresolved)
qed


lemma scan_distinct:
  "scan_environ o' env m = Inr m' \<Longrightarrow> distinct (map fst m) \<Longrightarrow> distinct (map fst m')"
proof (induction env arbitrary: m)
  case Nil then show ?case by simp
next
  case (Cons x env)
  then show ?case
    by (auto simp: scan_step distinct_update simp del: scan_environ.simps
             split: option.splits if_splits)
qed

lemma scan_key_set:
  "scan_environ o' env m = Inr m' \<Longrightarrow>
   fst ` set m' = fst ` set m \<union> {p. \<exists>v\<in>set env. resolved_path o' v = Some p}"
proof (induction env arbitrary: m)
  case Nil then show ?case by simp
next
  case (Cons x env)
  show ?case
  proof (cases "env_key o' x")
    case None
    with Cons show ?thesis
      by (auto simp: scan_step resolved_path_def simp del: scan_environ.simps)
  next
    case (Some k)
    show ?thesis
    proof (cases "snd (Find (env_Index o') k)")
      case True
      with Some Cons.prems have "scan_environ o' env
          (AList.update (fst (Find (env_Index o') k))
             (Trim (drop (the (IndexEq x) + 1) x) value_cutset) m) = Inr m'"
        by (simp add: scan_step del: scan_environ.simps)
      from Cons.IH [OF this] have "fst ` set m' = insert (fst (Find (env_Index o') k)) (fst ` set m)
          \<union> {p. \<exists>v\<in>set env. resolved_path o' v = Some p}"
        by (simp add: dom_update)
      moreover have "resolved_path o' x = Some (fst (Find (env_Index o') k))"
        using Some True by (simp add: resolved_path_def)
      ultimately show ?thesis by auto
    next
      case False
      with Some Cons.prems have "scan_environ o' env m = Inr m'"
        by (simp add: scan_step del: scan_environ.simps split: if_splits)
      from Cons.IH [OF this] have "fst ` set m' = fst ` set m
          \<union> {p. \<exists>v\<in>set env. resolved_path o' v = Some p}" .
      moreover have "resolved_path o' x = None" using Some False by (simp add: resolved_path_def)
      ultimately show ?thesis by auto
    qed
  qed
qed

lemma scan_fails_iff:
  "(\<exists>e. scan_environ o' env m = Inl e) \<longleftrightarrow> env_Strict o' \<and> (\<exists>v\<in>set env. unresolved o' v)"
proof (induction env arbitrary: m)
  case Nil then show ?case by simp
next
  case (Cons x env)
  show ?case
  proof (cases "env_key o' x")
    case None
    then show ?thesis using Cons.IH [of m]
      by (simp add: scan_step unresolved_def del: scan_environ.simps)
  next
    case (Some k)
    show ?thesis
    proof (cases "snd (Find (env_Index o') k)")
      case True
      then show ?thesis
        using Some Cons.IH [of "AList.update (fst (Find (env_Index o') k))
             (Trim (drop (the (IndexEq x) + 1) x) value_cutset) m"]
        by (simp add: scan_step unresolved_def del: scan_environ.simps)
    next
      case False
      then show ?thesis using Some Cons.IH [of m]
        by (auto simp: scan_step unresolved_def simp del: scan_environ.simps)
    qed
  qed
qed

lemma apply_keys_log:
  "\<exists>n. map fst (snd (apply_keys (log_set fail) strict m log ks)) = map fst log @ take n ks"
proof (induction ks arbitrary: log)
  case Nil then show ?case by simp
next
  case (Cons k ks)
  let ?log = "log @ [(k, AString (case map_of m k of Some x \<Rightarrow> x | None \<Rightarrow> []))]"
  from Cons.IH [of ?log] obtain n where
    n: "map fst (snd (apply_keys (log_set fail) strict m ?log ks)) = map fst ?log @ take n ks"
    by blast
  have "apply_keys (log_set fail) strict m log (k # ks) = apply_keys (log_set fail) strict m ?log ks
        \<or> (\<exists>e. apply_keys (log_set fail) strict m log (k # ks) = (Some e, ?log))"
    by (simp add: log_set_def Let_def split: option.splits)
  then show ?case
  proof
    assume "apply_keys (log_set fail) strict m log (k # ks) = apply_keys (log_set fail) strict m ?log ks"
    then have "map fst (snd (apply_keys (log_set fail) strict m log (k # ks)))
               = map fst log @ take (Suc n) (k # ks)"
      using n by simp
    then show ?thesis by (rule exI)
  next
    assume "\<exists>e. apply_keys (log_set fail) strict m log (k # ks) = (Some e, ?log)"
    then have "map fst (snd (apply_keys (log_set fail) strict m log (k # ks)))
               = map fst log @ take (Suc 0) (k # ks)"
      by auto
    then show ?thesis by (rule exI)
  qed
qed

lemma apply_keys_log_all:
  "map fst (snd (apply_keys (log_set (\<lambda>k v. None)) strict m log ks)) = map fst log @ ks"
  by (induction ks arbitrary: log) (auto simp: log_set_def Let_def)




lemma env_options_strict_app:
  "env_options (\<lambda>s. s) host_type [env_WithName ''app'', env_WithStrict True] = Inr strict_app_options"
  unfolding host_type_def string_type_def strict_app_options_def by code_simp

lemma env_options_app:
  "env_options (\<lambda>s. s) host_type [env_WithName ''app'']
     = Inr (strict_app_options\<lparr>env_Strict := False\<rparr>)"
  unfolding host_type_def string_type_def strict_app_options_def by code_simp

theorem C5_unresolved_key_witness:
  "env_options (\<lambda>s. s) host_type [env_WithName ''app'', env_WithStrict True] = Inr strict_app_options
   \<and> env_Strict strict_app_options
   \<and> unresolved strict_app_options ''APP_UNKNOWN=x''
   \<and> env_Set (\<lambda>s. s) [''APP_PORT=1'', ''APP_UNKNOWN=x'', ''APP_HOST=h''] kv_set host_type []
        [env_WithName ''app'', env_WithStrict True] = (Some (NotFoundError ''UNKNOWN''), [])
   \<and> \<not> env_Strict (strict_app_options\<lparr>env_Strict := False\<rparr>)
   \<and> unresolved (strict_app_options\<lparr>env_Strict := False\<rparr>) ''APP_UNKNOWN=x''
   \<and> env_Set (\<lambda>s. s) ([''APP_PORT=1''] @ ''APP_UNKNOWN=x'' # [''APP_HOST=h'']) kv_set host_type []
        [env_WithName ''app'']
      = env_Set (\<lambda>s. s) ([''APP_PORT=1''] @ [''APP_HOST=h'']) kv_set host_type [] [env_WithName ''app'']
   \<and> env_Set (\<lambda>s. s) [''APP_PORT=1'', ''APP_HOST=h''] kv_set host_type [] [env_WithName ''app'']
      = (None, [(''host'', AString ''h''), (''port'', AString ''1'')])"
proof -
  have u1: "unresolved strict_app_options ''APP_UNKNOWN=x''"
    unfolding strict_app_options_def string_type_def by code_simp
  have u2: "unresolved (strict_app_options\<lparr>env_Strict := False\<rparr>) ''APP_UNKNOWN=x''"
    unfolding strict_app_options_def string_type_def by code_simp
  have s1: "env_Strict strict_app_options" by (simp add: strict_app_options_def)
  have f: "filter (unresolved strict_app_options) [''APP_PORT=1'', ''APP_UNKNOWN=x'', ''APP_HOST=h'']
           = [''APP_UNKNOWN=x'']"
    unfolding strict_app_options_def string_type_def by code_simp
  have k: "env_key strict_app_options ''APP_UNKNOWN=x'' = Some ''UNKNOWN''"
    unfolding strict_app_options_def string_type_def by code_simp
  have e: "env_Set (\<lambda>s. s) [''APP_PORT=1'', ''APP_HOST=h''] kv_set host_type [] [env_WithName ''app'']
      = (None, [(''host'', AString ''h''), (''port'', AString ''1'')])"
    unfolding host_type_def string_type_def by code_simp
  from C5_unresolved_key [OF env_options_strict_app,
      where environ = "[''APP_PORT=1'', ''APP_UNKNOWN=x'', ''APP_HOST=h'']" and setter = kv_set
        and val = "[]"] s1 u1 f k
  have a: "env_Set (\<lambda>s. s) [''APP_PORT=1'', ''APP_UNKNOWN=x'', ''APP_HOST=h''] kv_set host_type []
        [env_WithName ''app'', env_WithStrict True] = (Some (NotFoundError ''UNKNOWN''), [])"
    by auto
  from C5_unresolved_key [OF env_options_app, where v = "''APP_UNKNOWN=x''"
      and xs = "[''APP_PORT=1'']" and ys = "[''APP_HOST=h'']" and setter = kv_set and val = "[]"] u2
  have b: "env_Set (\<lambda>s. s) ([''APP_PORT=1''] @ ''APP_UNKNOWN=x'' # [''APP_HOST=h'']) kv_set host_type []
        [env_WithName ''app'']
      = env_Set (\<lambda>s. s) ([''APP_PORT=1''] @ [''APP_HOST=h'']) kv_set host_type [] [env_WithName ''app'']"
    by (simp add: strict_app_options_def)
  show ?thesis using env_options_strict_app s1 u1 a u2 b e by (simp add: strict_app_options_def)
qed

lemma sorted_wrt_less_take: "sorted_wrt (<) (xs :: string list) \<Longrightarrow> sorted_wrt (<) (take n xs)"
  by (metis append_take_drop_id sorted_wrt_append)

lemma strict_sorted_sort: "distinct (xs :: string list) \<Longrightarrow> sorted_wrt (<) (sort xs)"
  by (simp add: strict_sorted_iff)

text \<open>
  C6. Whatever the environment, the options and the errors of the setter, the paths of
  the successive calls of the setter made by one \<open>Set\<close> are strictly ascending; and with a
  setter that never fails, two enumerations of the same environment lead to the same
  sequence of paths.
\<close>

theorem C6_sorted_application:
  "sorted_wrt (<) (map fst (snd (env_Set sn environ (log_set fail) T [] options)))
   \<and> (mset environ = mset environ' \<longrightarrow>
        map fst (snd (env_Set sn environ (log_set (\<lambda>k v. None)) T [] options))
        = map fst (snd (env_Set sn environ' (log_set (\<lambda>k v. None)) T [] options)))"
proof (cases "env_options sn T options")
  case (Inl e)
  then show ?thesis by (simp add: env_Set_def)
next
  case (Inr o')
  have part1: "sorted_wrt (<) (map fst (snd (env_Set sn environ (log_set fail) T [] options)))"
  proof (cases "scan_environ o' environ []")
    case (Inl e)
    then show ?thesis using Inr by (simp add: env_Set_def)
  next
    case m: (Inr m)
    have "distinct (map fst m)" using scan_distinct [OF m] by simp
    then have "sorted_wrt (<) (sort (map fst m))" by (rule strict_sorted_sort)
    moreover obtain n where "map fst (snd (apply_keys (log_set fail) (env_Strict o') m []
        (sort (map fst m)))) = take n (sort (map fst m))"
      using apply_keys_log [of fail "env_Strict o'" m "[]" "sort (map fst m)"] by auto
    ultimately show ?thesis using Inr m by (simp add: env_Set_def sorted_wrt_less_take)
  qed
  have part2: "map fst (snd (env_Set sn environ (log_set (\<lambda>k v. None)) T [] options))
        = map fst (snd (env_Set sn environ' (log_set (\<lambda>k v. None)) T [] options))"
    if perm: "mset environ = mset environ'"
  proof -
    have se: "set environ = set environ'" using perm by (rule mset_eq_setD)
    show ?thesis
    proof (cases "scan_environ o' environ []")
      case (Inl e)
      then have "env_Strict o' \<and> (\<exists>v\<in>set environ'. unresolved o' v)"
        using scan_fails_iff [of o' environ "[]"] se by auto
      then obtain e' where "scan_environ o' environ' [] = Inl e'"
        using scan_fails_iff [of o' environ' "[]"] by auto
      with Inl Inr show ?thesis by (simp add: env_Set_def)
    next
      case m: (Inr m)
      then have "\<not> (env_Strict o' \<and> (\<exists>v\<in>set environ'. unresolved o' v))"
        using scan_fails_iff [of o' environ "[]"] se by auto
      then obtain m' where m': "scan_environ o' environ' [] = Inr m'"
        using scan_fails_iff [of o' environ' "[]"] by (cases "scan_environ o' environ' []") auto
      have d: "distinct (map fst m)" "distinct (map fst m')"
        using scan_distinct [OF m] scan_distinct [OF m'] by simp_all
      have "set (map fst m) = set (map fst m')"
        using scan_key_set [OF m] scan_key_set [OF m'] se by simp
      then have "sort (map fst m) = sort (map fst m')"
        using d by (metis distinct_remdups_id sorted_list_of_set_sort_remdups)
      then show ?thesis using Inr m m' by (simp add: env_Set_def apply_keys_log_all)
    qed
  qed
  show ?thesis using part1 part2 by blast
qed

theorem C6_sorted_application_witness:
  "mset [''APP_PORT=1'', ''APP_HOST=h''] = mset [''APP_HOST=h'', ''APP_PORT=1'']
   \<and> map fst (snd (env_Set (\<lambda>s. s) [''APP_PORT=1'', ''APP_HOST=h''] (log_set (\<lambda>k v. None)) host_type []
        [env_WithName ''app''])) = [''host'', ''port'']
   \<and> map fst (snd (env_Set (\<lambda>s. s) [''APP_HOST=h'', ''APP_PORT=1''] (log_set (\<lambda>k v. None)) host_type []
        [env_WithName ''app''])) = [''host'', ''port'']
   \<and> sorted_wrt (<) [''host'', ''port'']"
proof -
  have p: "mset [''APP_PORT=1'', ''APP_HOST=h''] = mset [''APP_HOST=h'', ''APP_PORT=1'']"
    by (simp add: add_mset_commute)
  have e: "map fst (snd (env_Set (\<lambda>s. s) [''APP_PORT=1'', ''APP_HOST=h''] (log_set (\<lambda>k v. None)) host_type []
        [env_WithName ''app''])) = [''host'', ''port'']"
    unfolding host_type_def string_type_def by code_simp
  from C6_sorted_application [of "\<lambda>s. s" "[''APP_PORT=1'', ''APP_HOST=h'']" "\<lambda>k v. None" host_type
      "[env_WithName ''app'']" "[''APP_HOST=h'', ''APP_PORT=1'']"]
  have s: "sorted_wrt (<) (map fst (snd (env_Set (\<lambda>s. s) [''APP_PORT=1'', ''APP_HOST=h'']
        (log_set (\<lambda>k v. None)) host_type [] [env_WithName ''app''])))"
    and q: "map fst (snd (env_Set (\<lambda>s. s) [''APP_PORT=1'', ''APP_HOST=h''] (log_set (\<lambda>k v. None))
        host_type [] [env_WithName ''app'']))
      = map fst (snd (env_Set (\<lambda>s. s) [''APP_HOST=h'', ''APP_PORT=1''] (log_set (\<lambda>k v. None))
        host_type [] [env_WithName ''app'']))"
    using p by blast+
  have s': "sorted_wrt (<) [''host'', ''port'']" using s unfolding e .
  have e': "map fst (snd (env_Set (\<lambda>s. s) [''APP_HOST=h'', ''APP_PORT=1''] (log_set (\<lambda>k v. None))
        host_type [] [env_WithName ''app''])) = [''host'', ''port'']"
    using q unfolding e by simp
  show ?thesis using p e e' s' by blast
qed

section \<open>The layers of Load\<close>

lemma setter_at_ok:
  assumes "setter_at w p obs rd" and "lookup_Set w c k v = (None, c')"
  shows "obs c' = (if k = p then rd v else obs c)"
proof -
  from assms(1) have "\<forall>c k v e c'. lookup_Set w c k v = (e, c') \<longrightarrow>
        (e = None \<longrightarrow> obs c' = (if k = p then rd v else obs c))
        \<and> (\<forall>n. e = Some (NotFoundError n) \<longrightarrow> k \<noteq> p \<and> obs c' = obs c)"
    by (simp only: setter_at_def)
  from this [rule_format, OF assms(2)] show ?thesis by simp
qed

lemma setter_at_notfound:
  assumes "setter_at w p obs rd" and "lookup_Set w c k v = (Some (NotFoundError n), c')"
  shows "k \<noteq> p \<and> obs c' = obs c"
proof -
  from assms(1) have "\<forall>c k v e c'. lookup_Set w c k v = (e, c') \<longrightarrow>
        (e = None \<longrightarrow> obs c' = (if k = p then rd v else obs c))
        \<and> (\<forall>n. e = Some (NotFoundError n) \<longrightarrow> k \<noteq> p \<and> obs c' = obs c)"
    by (simp only: setter_at_def)
  from this [rule_format, OF assms(2)] show ?thesis by simp
qed

lemma flag_entries_keys: "fst ` set (flag_entries_of get fl) \<subseteq> fst ` set fl"
  by (induction get fl rule: flag_entries_of.induct) (auto split: sum.splits)

lemma SetFlags_loop_at:
  assumes "setter_at w p obs rd"
  shows "distinct (map fst fl) \<Longrightarrow> SetFlags_loop (lookup_Set w) get c fl = (None, c')
    \<Longrightarrow> obs c' = (case map_of (flag_entries_of get fl) p of Some v \<Rightarrow> rd v | None \<Rightarrow> obs c)"
proof (induction get fl arbitrary: c rule: flag_entries_of.induct)
  case (1 get)
  then show ?case by simp
next
  case (2 get k v fl)
  have d: "distinct (map fst fl)" and kn: "k \<notin> fst ` set fl" using "2.prems"(1) by auto
  show ?case
  proof (cases "Changed (f_flag v)")
    case False
    then have "SetFlags_loop (lookup_Set w) get c fl = (None, c')" using "2.prems"(2) by simp
    from "2.IH"(3) [OF False d this] False show ?thesis by simp
  next
    case True
    obtain x where x: "getValue get v = Inr x"
      using True "2.prems"(2) by (cases "getValue get v") simp_all
    obtain e c1 where s: "lookup_Set w c k x = (e, c1)" by (cases "lookup_Set w c k x")
    have e: "e = None" using True "2.prems"(2) x s by (cases e) simp_all
    have rest: "SetFlags_loop (lookup_Set w) get c1 fl = (None, c')"
      using True "2.prems"(2) x s e by simp
    have s': "lookup_Set w c k x = (None, c1)" using s e by simp
    have o1: "obs c1 = (if k = p then rd x else obs c)"
      by (rule setter_at_ok [OF assms s'])
    have es: "flag_entries_of get ((k, v) # fl) = (k, x) # flag_entries_of get fl"
      using True x by simp
    have IH: "obs c' = (case map_of (flag_entries_of get fl) p of Some v \<Rightarrow> rd v | None \<Rightarrow> obs c1)"
      using "2.IH"(2) [OF True x d rest] .
    show ?thesis
    proof (cases "k = p")
      case kp: True
      then have "p \<notin> fst ` set (flag_entries_of get fl)"
        using kn flag_entries_keys [of get fl] by blast
      then have "map_of (flag_entries_of get fl) p = None" by (simp add: map_of_eq_None_iff)
      with IH o1 kp show ?thesis unfolding es by simp
    next
      case False
      with IH o1 show ?thesis unfolding es by (simp split: option.splits)
    qed
  qed
qed

lemma is_NotFoundError_iff: "is_NotFoundError err \<longleftrightarrow> (\<exists>n. err = NotFoundError n)"
  by (cases err) simp_all

lemma apply_keys_at:
  assumes "setter_at w p obs rd"
  shows "distinct ks \<Longrightarrow> apply_keys (lookup_Set w) strict m c ks = (None, c')
    \<Longrightarrow> obs c' = (if p \<in> set ks
                   then rd (AString (case map_of m p of Some x \<Rightarrow> x | None \<Rightarrow> []))
                   else obs c)"
proof (induction ks arbitrary: c)
  case Nil then show ?case by simp
next
  case (Cons k ks)
  let ?v = "AString (case map_of m k of Some x \<Rightarrow> x | None \<Rightarrow> [])"
  obtain e c1 where s: "lookup_Set w c k ?v = (e, c1)" by (cases "lookup_Set w c k ?v")
  have d: "distinct ks" and kn: "k \<notin> set ks" using Cons.prems(1) by auto
  show ?case
  proof (cases e)
    case None
    then have rest: "apply_keys (lookup_Set w) strict m c1 ks = (None, c')"
      using Cons.prems(2) s by (simp add: Let_def)
    have s': "lookup_Set w c k ?v = (None, c1)" using s None by simp
    have "obs c1 = (if k = p then rd ?v else obs c)"
      by (rule setter_at_ok [OF assms s'])
    with Cons.IH [OF d rest] kn show ?thesis by auto
  next
    case (Some err)
    then have nf: "is_NotFoundError err" and rest: "apply_keys (lookup_Set w) strict m c1 ks = (None, c')"
      using Cons.prems(2) s by (simp_all add: Let_def split: if_splits)
    from nf obtain n where "err = NotFoundError n" by (auto simp: is_NotFoundError_iff)
    then have s': "lookup_Set w c k ?v = (Some (NotFoundError n), c1)" using s Some by simp
    have "k \<noteq> p \<and> obs c1 = obs c"
      by (rule setter_at_notfound [OF assms s'])
    with Cons.IH [OF d rest] show ?thesis by auto
  qed
qed

lemma scan_step_value:
  "scan_environ o' (x # env) m =
     (case env_key o' x of
        None \<Rightarrow> scan_environ o' env m
      | Some k \<Rightarrow>
          (if snd (Find (env_Index o') k)
           then scan_environ o' env (AList.update (fst (Find (env_Index o') k)) (env_value x) m)
           else if \<not> env_Strict o' then scan_environ o' env m
           else Inl (NotFoundError k)))"
  by (auto simp: env_key_def env_value_def Let_def split: option.splits prod.splits bool.splits)

lemma scan_map_of:
  "scan_environ oe env m = Inr m' \<Longrightarrow>
   map_of m' k = (case map_of (rev (env_entries_of oe env)) k of Some s \<Rightarrow> Some s | None \<Rightarrow> map_of m k)"
proof (induction env arbitrary: m)
  case Nil
  then show ?case by simp
next
  case (Cons x env)
  show ?case
  proof (cases "resolved_path oe x")
    case None
    then have "scan_environ oe env m = Inr m'" using Cons.prems
      by (auto simp: scan_step_value resolved_path_def simp del: scan_environ.simps
               split: option.splits if_splits)
    from Cons.IH [OF this] None show ?thesis by simp
  next
    case (Some q)
    then have "scan_environ oe env (AList.update q (env_value x) m) = Inr m'" using Cons.prems
      by (auto simp: scan_step_value resolved_path_def simp del: scan_environ.simps
               split: option.splits if_splits)
    from Cons.IH [OF this] Some show ?thesis
      by (simp add: update_conv' map_add_def split: option.splits)
  qed
qed

lemma create_paths_keeps:
  "create_keeps w obs \<Longrightarrow> create_paths w c qs = (None, c') \<Longrightarrow> obs c' = obs c"
proof (induction qs arbitrary: c)
  case Nil then show ?case by simp
next
  case (Cons q qs)
  then obtain c1 where c1: "lookup_Create w c q = (None, c1)" and r: "create_paths w c1 qs = (None, c')"
    by (auto split: prod.splits option.splits)
  from Cons.IH [OF Cons.prems(1) r] c1 Cons.prems(1) show ?case by (auto simp: create_keeps_def)
qed

lemma unmarshal_file_at:
  "file_at w obs fv \<Longrightarrow> unmarshal_file w f ft data c = (None, c')
   \<Longrightarrow> obs c' = (case fv data of Some x \<Rightarrow> x | None \<Rightarrow> obs c)"
  by (auto simp: unmarshal_file_def file_at_def split: if_splits)




lemma load_file_at:
  assumes "file_at w obs fv" "create_keeps w obs" "default_at w obs dflt"
    and "load_file w o2 optional c0 = Inr c1" and "obs c0 = dflt"
  shows "\<exists>data. ReadFile w (File o2) = Inr data
           \<and> obs c1 = (case fv data of Some x \<Rightarrow> x | None \<Rightarrow> dflt)"
proof -
  obtain data where rd: "ReadFile w (File o2) = Inr data"
    using assms(4) by (cases "ReadFile w (File o2)") (simp_all add: load_file_def)
  obtain e1 ca where u1: "unmarshal_file w (File o2) (FileType o2) data c0 = (e1, ca)"
    by (cases "unmarshal_file w (File o2) (FileType o2) data c0")
  have e1: "e1 = None" using assms(4) rd u1 by (cases e1) (simp_all add: load_file_def)
  have oa: "obs ca = (case fv data of Some x \<Rightarrow> x | None \<Rightarrow> dflt)"
    using unmarshal_file_at [OF assms(1), of "File o2" "FileType o2" data c0 ca] u1 e1 assms(5)
    by (simp split: option.splits)
  show ?thesis
  proof (cases "length optional > 0")
    case False
    then have "c1 = ca" using assms(4) rd u1 e1 by (simp add: load_file_def)
    with rd oa show ?thesis by simp
  next
    case True
    then obtain changed where ch: "existing_paths w ca optional = Inr changed"
      using assms(4) rd u1 e1 by (cases "existing_paths w ca optional") (simp_all add: load_file_def)
    show ?thesis
    proof (cases "length changed > 0")
      case False
      then have "c1 = ca" using assms(4) rd u1 e1 True ch by (simp add: load_file_def)
      with rd oa show ?thesis by simp
    next
      case c: True
      obtain e2 tmp where df: "defaults_Set w (zero w) = (e2, tmp)" by (cases "defaults_Set w (zero w)")
      have e2: "e2 = None" using assms(4) rd u1 e1 True ch c df by (cases e2) (simp_all add: load_file_def)
      obtain e3 tmp1 where cr: "create_paths w tmp changed = (e3, tmp1)"
        by (cases "create_paths w tmp changed")
      have e3: "e3 = None"
        using assms(4) rd u1 e1 True ch c df e2 cr by (cases e3) (simp_all add: load_file_def)
      obtain e4 tmp2 where u2: "unmarshal_file w (File o2) (FileType o2) data tmp1 = (e4, tmp2)"
        by (cases "unmarshal_file w (File o2) (FileType o2) data tmp1")
      have e4: "e4 = None"
        using assms(4) rd u1 e1 True ch c df e2 cr e3 u2 by (cases e4) (simp_all add: load_file_def)
      have c1: "c1 = tmp2"
        using assms(4) rd u1 e1 True ch c df e2 cr e3 u2 e4 by (simp add: load_file_def)
      have "obs tmp = dflt" using assms(3) df e2 by (simp add: default_at_def)
      then have "obs tmp1 = dflt"
        using create_paths_keeps [OF assms(2), of tmp changed tmp1] cr e3 by simp
      then have "obs tmp2 = (case fv data of Some x \<Rightarrow> x | None \<Rightarrow> dflt)"
        using unmarshal_file_at [OF assms(1), of "File o2" "FileType o2" data tmp1 tmp2] u2 e4
        by (simp split: option.splits)
      with rd c1 show ?thesis by simp
    qed
  qed
qed


lemma env_Set_at:
  assumes "setter_at w p obs rd"
    and "env_Set sn environ (lookup_Set w) T c options = (None, c')"
  shows "\<exists>oe. env_options sn T options = Inr oe
           \<and> obs c' = (case map_of (rev (env_entries_of oe environ)) p of
                         Some s \<Rightarrow> rd (AString s) | None \<Rightarrow> obs c)"
proof -
  obtain oe where oe: "env_options sn T options = Inr oe"
    using assms(2) by (cases "env_options sn T options") (simp_all add: env_Set_def)
  obtain m where m: "scan_environ oe environ [] = Inr m"
    using assms(2) oe by (cases "scan_environ oe environ []") (simp_all add: env_Set_def)
  have ap: "apply_keys (lookup_Set w) (env_Strict oe) m c (sort (map fst m)) = (None, c')"
    using assms(2) oe m by (simp add: env_Set_def)
  have d: "distinct (sort (map fst m))" using scan_distinct [OF m] by simp
  have mp: "map_of m p = map_of (rev (env_entries_of oe environ)) p"
    using scan_map_of [OF m, of p] by (simp split: option.splits)
  have "obs c' = (if p \<in> set (sort (map fst m))
                   then rd (AString (case map_of m p of Some x \<Rightarrow> x | None \<Rightarrow> []))
                   else obs c)"
    by (rule apply_keys_at [OF assms(1) d ap])
  moreover have "p \<in> set (sort (map fst m)) \<longleftrightarrow> map_of m p \<noteq> None"
    by (simp add: map_of_eq_None_iff)
  ultimately have "obs c' = (case map_of (rev (env_entries_of oe environ)) p of
                         Some s \<Rightarrow> rd (AString s) | None \<Rightarrow> obs c)"
    unfolding mp by (simp split: option.splits)
  with oe show ?thesis by blast
qed

lemma port_world_contracts:
  "setter_at (port_world environ) ''port'' port_obs Some"
  "file_at (port_world environ) port_obs (\<lambda>data. Some (Some (AString data)))"
  "create_keeps (port_world environ) port_obs"
  "default_at (port_world environ) port_obs (Some (AString ''8080''))"
  by (auto simp: setter_at_def file_at_def create_keeps_def default_at_def port_world_def
      port_obs_def kv_set_def update_conv')

text \<open>
  C1. \<open>Load\<close> applies the layers in the order default, file, environment, flag, the later
  one winning. For a load that succeeds, with effective options \<open>o2\<close>, and a path \<open>p\<close>
  observed by \<open>obs\<close> under the contracts of the collaborators: the loaded record holds at
  \<open>p\<close> the value of the changed flag bound to \<open>p\<close>, if there is one; otherwise the value of
  the last environment variable that resolves to \<open>p\<close>, if there is one; otherwise the value
  the file gives for \<open>p\<close>, if a file was read and gives one; otherwise the default. The flag
  list is a Go map, so its keys are distinct.
\<close>

theorem C1_precedence:
  assumes "Load w T options = (Some cfg, file, None)"
    and "resolve_file w (options_of options) = Inr o1"
    and "resolve_index (stringy w) T o1 = Inr o2"
    and "case Flags o2 of Some f \<Rightarrow> distinct (map fst (fl_flags f)) | None \<Rightarrow> True"
    and "setter_at w p obs rd" and "file_at w obs fv" and "create_keeps w obs"
    and "default_at w obs dflt"
  shows "obs cfg =
     (case map_of (flag_entries w o2) p of
        Some v \<Rightarrow> rd v
      | None \<Rightarrow>
          (case map_of (rev (env_entries w T o2)) p of
             Some s \<Rightarrow> rd (AString s)
           | None \<Rightarrow>
               (case file_data w o2 of
                  Some data \<Rightarrow> (case fv data of Some x \<Rightarrow> x | None \<Rightarrow> dflt)
                | None \<Rightarrow> dflt)))"
proof -
  obtain e0 cfg0 where d0: "defaults_Set w (zero w) = (e0, cfg0)" by (cases "defaults_Set w (zero w)")
  have e0: "e0 = None" using assms(1,2) d0 by (cases e0) (simp_all add: Load_def)
  have dflt: "obs cfg0 = dflt" using assms(8) d0 e0 by (simp add: default_at_def)
  obtain cfg1 where f1: "(if length (File o2) > 0 then load_file w o2 (optional_paths o2) cfg0
      else Inr cfg0) = Inr cfg1"
    using assms(1,2,3) d0 e0
    by (cases "if length (File o2) > 0 then load_file w o2 (optional_paths o2) cfg0 else Inr cfg0")
       (auto simp: Load_def)
  obtain e2 cfg2 where l2: "env_layer w T o2 cfg1 = (e2, cfg2)" by (cases "env_layer w T o2 cfg1")
  have e2: "e2 = None" using assms(1,2,3) d0 e0 f1 l2 by (cases e2) (simp_all add: Load_def)
  obtain e3 cfg3 where l3: "flag_layer w o2 cfg2 = (e3, cfg3)" by (cases "flag_layer w o2 cfg2")
  have e3: "e3 = None" using assms(1,2,3) d0 e0 f1 l2 e2 l3 by (cases e3) (simp_all add: Load_def)
  have c3: "cfg3 = cfg" using assms(1,2,3) d0 e0 f1 l2 e2 l3 e3 by (simp add: Load_def)
  have A: "obs cfg1 = (case file_data w o2 of
                  Some data \<Rightarrow> (case fv data of Some x \<Rightarrow> x | None \<Rightarrow> dflt)
                | None \<Rightarrow> dflt)"
  proof (cases "length (File o2) > 0")
    case False
    with f1 dflt show ?thesis by (simp add: file_data_def)
  next
    case True
    then have "load_file w o2 (optional_paths o2) cfg0 = Inr cfg1" using f1 by simp
    from load_file_at [OF assms(6,7,8) this dflt] True show ?thesis
      by (auto simp: file_data_def)
  qed
  have B: "obs cfg2 = (case map_of (rev (env_entries w T o2)) p of
             Some s \<Rightarrow> rd (AString s) | None \<Rightarrow> obs cfg1)"
  proof (cases "length (cfg_Name o2) > 0")
    case False
    with l2 show ?thesis by (simp add: env_layer_def env_entries_def)
  next
    case True
    then have "env_Set (stringy w) (Environ w) (lookup_Set w) T cfg1
        [env_WithName (cfg_Name o2), env_WithStrict (Strict o2), env_WithIndex (Index o2)]
        = (None, cfg2)"
      using l2 e2 by (simp add: env_layer_def)
    from env_Set_at [OF assms(5) this] True show ?thesis
      by (auto simp: env_entries_def)
  qed
  have C: "obs cfg3 = (case map_of (flag_entries w o2) p of Some v \<Rightarrow> rd v | None \<Rightarrow> obs cfg2)"
  proof (cases "Flags o2")
    case None
    with l3 show ?thesis by (simp add: flag_layer_def flag_entries_def)
  next
    case (Some f)
    then have d: "distinct (map fst (fl_flags f))" using assms(4) by simp
    have "SetFlags_loop (lookup_Set w) (flag_Get w) cfg2 (fl_flags f) = (None, cfg3)"
      using l3 e3 Some by (simp add: flag_layer_def SetFlags_def)
    from SetFlags_loop_at [OF assms(5) d this] Some show ?thesis
      by (simp add: flag_entries_def)
  qed
  show ?thesis unfolding c3 [symmetric] C B A by (simp split: option.splits)
qed

text \<open>
  The four cases at the record with the field \<open>port\<close>: default \<open>8080\<close>, file \<open>9090\<close>,
  environment \<open>MY_APP_PORT=9999\<close>, changed flag \<open>12345\<close>.
\<close>

theorem C1_precedence_witness:
  "Load (port_world port_env) host_type flag_options
     = (Some [(''port'', AString ''12345'')], ''app.json'', None)
   \<and> port_obs [(''port'', AString ''12345'')] = Some (AString ''12345'')
   \<and> Load (port_world port_env) host_type env_only_options
     = (Some [(''port'', AString ''9999'')], ''app.json'', None)
   \<and> port_obs [(''port'', AString ''9999'')] = Some (AString ''9999'')
   \<and> Load (port_world port_env) host_type file_only_options
     = (Some [(''port'', AString ''9090'')], ''app.json'', None)
   \<and> port_obs [(''port'', AString ''9090'')] = Some (AString ''9090'')
   \<and> Load (port_world port_env) host_type [] = (Some [(''port'', AString ''8080'')], [], None)
   \<and> port_obs [(''port'', AString ''8080'')] = Some (AString ''8080'')"
proof -
  let ?w = "port_world port_env"
  let ?fv = "\<lambda>data. Some (Some (AString data))"
  have res: "resolve_file ?w (options_of os) = Inr (projr (resolve_file ?w (options_of os)))
      \<and> resolve_index (stringy ?w) host_type (projr (resolve_file ?w (options_of os)))
          = Inr (effective_options ?w host_type os)"
    if "isl (resolve_file ?w (options_of os)) = False"
      "isl (resolve_index (stringy ?w) host_type (projr (resolve_file ?w (options_of os)))) = False"
    for os
    using that unfolding effective_options_def by (simp add: sum.expand)
  have step: "port_obs cfg =
     (case map_of (flag_entries ?w (effective_options ?w host_type os)) ''port'' of
        Some v \<Rightarrow> Some v
      | None \<Rightarrow>
          (case map_of (rev (env_entries ?w host_type (effective_options ?w host_type os))) ''port'' of
             Some s \<Rightarrow> Some (AString s)
           | None \<Rightarrow>
               (case file_data ?w (effective_options ?w host_type os) of
                  Some data \<Rightarrow> (case ?fv data of Some x \<Rightarrow> x | None \<Rightarrow> Some (AString ''8080''))
                | None \<Rightarrow> Some (AString ''8080''))))"
    if "Load ?w host_type os = (Some cfg, fname, None)"
      "isl (resolve_file ?w (options_of os)) = False"
      "isl (resolve_index (stringy ?w) host_type (projr (resolve_file ?w (options_of os)))) = False"
      "(case Flags (effective_options ?w host_type os) of
          Some f \<Rightarrow> distinct (map fst (fl_flags f)) | None \<Rightarrow> True)"
    for os cfg fname
    using C1_precedence [OF that(1) res [OF that(2,3), THEN conjunct1]
        res [OF that(2,3), THEN conjunct2] that(4) port_world_contracts [of port_env]] .
  have L1: "Load ?w host_type flag_options
     = (Some [(''port'', AString ''12345'')], ''app.json'', None)" by code_simp
  have L2: "Load ?w host_type env_only_options
     = (Some [(''port'', AString ''9999'')], ''app.json'', None)" by code_simp
  have L3: "Load ?w host_type file_only_options
     = (Some [(''port'', AString ''9090'')], ''app.json'', None)" by code_simp
  have L4: "Load ?w host_type [] = (Some [(''port'', AString ''8080'')], [], None)" by code_simp
  have R1: "isl (resolve_file ?w (options_of flag_options)) = False" by code_simp
  have I1: "isl (resolve_index (stringy ?w) host_type (projr (resolve_file ?w (options_of flag_options)))) = False"
    by code_simp
  have D1: "(case Flags (effective_options ?w host_type flag_options) of
          Some f \<Rightarrow> distinct (map fst (fl_flags f)) | None \<Rightarrow> True)" by code_simp
  have V1: "port_obs [(''port'', AString ''12345'')] = Some (AString ''12345'')"
    unfolding step [OF L1 R1 I1 D1] by code_simp
  have R2: "isl (resolve_file ?w (options_of env_only_options)) = False" by code_simp
  have I2: "isl (resolve_index (stringy ?w) host_type (projr (resolve_file ?w (options_of env_only_options)))) = False"
    by code_simp
  have D2: "(case Flags (effective_options ?w host_type env_only_options) of
          Some f \<Rightarrow> distinct (map fst (fl_flags f)) | None \<Rightarrow> True)" by code_simp
  have V2: "port_obs [(''port'', AString ''9999'')] = Some (AString ''9999'')"
    unfolding step [OF L2 R2 I2 D2] by code_simp
  have R3: "isl (resolve_file ?w (options_of file_only_options)) = False" by code_simp
  have I3: "isl (resolve_index (stringy ?w) host_type (projr (resolve_file ?w (options_of file_only_options)))) = False"
    by code_simp
  have D3: "(case Flags (effective_options ?w host_type file_only_options) of
          Some f \<Rightarrow> distinct (map fst (fl_flags f)) | None \<Rightarrow> True)" by code_simp
  have V3: "port_obs [(''port'', AString ''9090'')] = Some (AString ''9090'')"
    unfolding step [OF L3 R3 I3 D3] by code_simp
  have R4: "isl (resolve_file ?w (options_of [])) = False" by code_simp
  have I4: "isl (resolve_index (stringy ?w) host_type (projr (resolve_file ?w (options_of [])))) = False"
    by code_simp
  have D4: "(case Flags (effective_options ?w host_type []) of
          Some f \<Rightarrow> distinct (map fst (fl_flags f)) | None \<Rightarrow> True)" by code_simp
  have V4: "port_obs [(''port'', AString ''8080'')] = Some (AString ''8080'')"
    unfolding step [OF L4 R4 I4 D4] by code_simp
  show ?thesis using L1 L2 L3 L4 V1 V2 V3 V4 by simp
qed

end
